theory Spec2Isabelle
  imports Complex_Main "HOL-Library.Extended_Nat"
begin

section \<open>Geometry\<close>

text \<open>
  JavaScript numbers are modelled as exact rationals: the pixel coordinates the layout
  code works on are integers and their halves and quotients, and no claim below is about
  rounding.
\<close>

record point =
  px :: rat
  py :: rat

record rect =
  rleft :: rat
  rtop :: rat
  rwidth :: rat
  rheight :: rat

text \<open>
  The \<open>Point\<close> and \<open>Rect\<close> value types are used by \<open>items.js\<close> but defined outside
  the files studied here; each of their operations below is modelled from the
  specification's data model.
\<close>

text \<open>
  Modelled from the spec: the constructor of \<open>Point\<close>, missing from the sources. A point
  built without arguments is taken to be the origin: \<open>pushOne\<close> sets one coordinate of
  such a point and offsets a rectangle by it.
\<close>

definition Point :: "rat \<Rightarrow> rat \<Rightarrow> point" where
  "Point a b = \<lparr>px = a, py = b\<rparr>"

text \<open>Modelled from the spec: the constructor of \<open>Rect\<close> from left, top, width and height.\<close>

definition Rect :: "rat \<Rightarrow> rat \<Rightarrow> rat \<Rightarrow> rat \<Rightarrow> rect" where
  "Rect l t w h = \<lparr>rleft = l, rtop = t, rwidth = w, rheight = h\<rparr>"

text \<open>Modelled from the spec: the derived property \<open>right = left + width\<close> of \<open>Rect\<close>.\<close>

definition rright :: "rect \<Rightarrow> rat" where
  "rright r = rleft r + rwidth r"

text \<open>Modelled from the spec: the derived property \<open>bottom = top + height\<close> of \<open>Rect\<close>.\<close>

definition rbottom :: "rect \<Rightarrow> rat" where
  "rbottom r = rtop r + rheight r"

text \<open>Modelled from the spec: \<open>Rect.center\<close>, the midpoint of the rectangle.\<close>

definition center :: "rect \<Rightarrow> point" where
  "center r = Point (rleft r + rwidth r / 2) (rtop r + rheight r / 2)"

text \<open>
  Modelled from the spec: \<open>Rect.inset\<close>, which shrinks the rectangle symmetrically by
  \<open>a\<close> on the left and right and \<open>b\<close> on the top and bottom, and grows it for negative
  arguments.
\<close>

definition inset :: "rat \<Rightarrow> rat \<Rightarrow> rect \<Rightarrow> rect" where
  "inset a b r = Rect (rleft r + a) (rtop r + b) (rwidth r - a * 2) (rheight r - b * 2)"

text \<open>Modelled from the spec: \<open>Rect.offset\<close> by a point, which moves the rectangle.\<close>

definition offset :: "point \<Rightarrow> rect \<Rightarrow> rect" where
  "offset p r = r\<lparr>rleft := rleft r + px p, rtop := rtop r + py p\<rparr>"

text \<open>
  Modelled from the spec: \<open>Rect.intersects\<close>. Two rectangles intersect when they share
  interior; rectangles that only touch do not. This is the reading \<open>pushOne\<close> relies on:
  it moves an overlapping item until its edge lies on the edge of the base.
\<close>

definition intersects :: "rect \<Rightarrow> rect \<Rightarrow> bool" where
  "intersects this r \<longleftrightarrow>
     rright r > rleft this \<and> rleft r < rright this \<and>
     rbottom r > rtop this \<and> rtop r < rbottom this"

text \<open>Modelled from the spec: \<open>Rect.contains\<close> for a rectangle argument, edges included.\<close>

definition contains :: "rect \<Rightarrow> rect \<Rightarrow> bool" where
  "contains this a \<longleftrightarrow>
     rleft a \<ge> rleft this \<and> rright a \<le> rright this \<and>
     rtop a \<ge> rtop this \<and> rbottom a \<le> rbottom this"

section \<open>The Items singleton: constants and size validation\<close>

definition minItemHeight :: rat where
  "minItemHeight = 110"

definition minItemWidth :: rat where
  "minItemWidth = 125"

definition defaultGutter :: rat where
  "defaultGutter = 15"

text \<open>
  \<open>Items.calcValidSize\<close> opens with two \<open>Utils.assert\<close> calls. \<open>Utils\<close> is outside the
  files studied here, so the asserted condition is kept as the predicate
  \<open>calcValidSize_pre\<close> and the body after it is modelled as written.
\<close>

definition calcValidSize_pre :: "point \<Rightarrow> bool" where
  "calcValidSize_pre sz \<longleftrightarrow> (px sz > 0 \<or> py sz > 0) \<and> (px sz \<noteq> 0 \<and> py sz \<noteq> 0)"

definition calcValidSize :: "point \<Rightarrow> point" where
  "calcValidSize sz = Point (max (px sz) minItemWidth) (max (py sz) minItemHeight)"

section \<open>The Items registry\<close>

text \<open>
  Items are compared by object identity; the registry is polymorphic in the type \<open>'i\<close> of
  item references and \<open>'o\<close> of option objects. \<open>_lastActiveList\<close> is an \<open>MRUList\<close>,
  a class defined outside the files studied here: its state has the abstract type \<open>'m\<close>
  and its \<open>remove\<close> method is a parameter of \<open>unregister\<close>.
\<close>

record ('i, 'o) arrangeInfo =
  arr_item :: 'i
  arr_options :: 'o

record ('i, 'o, 'm) items_state =
  items :: "'i list"
  activeItem :: "'i option"
  arrangePaused :: bool
  arrangesPending :: "('i, 'o) arrangeInfo list"
  lastActiveList :: 'm

text \<open>The search loop of \<open>pushArrange\<close>: the first index holding the item, or the length.\<close>

fun pendingIndex :: "'i \<Rightarrow> ('i, 'o) arrangeInfo list \<Rightarrow> nat" where
  "pendingIndex item [] = 0"
| "pendingIndex item (g # gs) = (if arr_item g = item then 0 else Suc (pendingIndex item gs))"

text \<open>The condition \<open>pushArrange\<close> asserts on entry: arranges are paused.\<close>

definition pushArrange_pre :: "('i, 'o, 'm) items_state \<Rightarrow> bool" where
  "pushArrange_pre st \<longleftrightarrow> arrangePaused st"

definition pushArrange :: "'i \<Rightarrow> 'o \<Rightarrow> ('i, 'o, 'm) items_state \<Rightarrow> ('i, 'o, 'm) items_state" where
  "pushArrange item options st =
     (let i = pendingIndex item (arrangesPending st);
          arrangeInfo = \<lparr>arr_item = item, arr_options = options\<rparr>
      in if i < length (arrangesPending st)
         then st\<lparr>arrangesPending := (arrangesPending st)[i := arrangeInfo]\<rparr>
         else st\<lparr>arrangesPending := arrangesPending st @ [arrangeInfo]\<rparr>)"

text \<open>
  \<open>resumeArrange\<close> calls \<open>g.item.arrange(g.options)\<close> for each pending entry. The
  \<open>arrange\<close> method belongs to the item, outside the registry; the model returns the
  calls made, in order, next to the new state.
\<close>

datatype ('i, 'o) call = Arrange 'i 'o

fun replay :: "('i, 'o) arrangeInfo list \<Rightarrow> ('i, 'o) call list" where
  "replay [] = []"
| "replay (g # gs) = Arrange (arr_item g) (arr_options g) # replay gs"

definition resumeArrange :: "('i, 'o, 'm) items_state \<Rightarrow> ('i, 'o, 'm) items_state \<times> ('i, 'o) call list" where
  "resumeArrange st =
     (st\<lparr>arrangePaused := False, arrangesPending := []\<rparr>, replay (arrangesPending st))"

text \<open>The condition \<open>register\<close> asserts on entry: the item is not registered yet.\<close>

definition register_pre :: "'i \<Rightarrow> ('i, 'o, 'm) items_state \<Rightarrow> bool" where
  "register_pre item st \<longleftrightarrow> item \<notin> set (items st)"

definition register :: "'i \<Rightarrow> ('i, 'o, 'm) items_state \<Rightarrow> ('i, 'o, 'm) items_state" where
  "register item st = st\<lparr>items := items st @ [item]\<rparr>"

definition unregister ::
  "('i \<Rightarrow> 'm \<Rightarrow> 'm) \<Rightarrow> 'i \<Rightarrow> ('i, 'o, 'm) items_state \<Rightarrow> ('i, 'o, 'm) items_state" where
  "unregister remove item st =
     st\<lparr>items := remove1 item (items st),
        activeItem := (if Some item = activeItem st then None else activeItem st),
        arrangesPending := filter (\<lambda>pending. item \<noteq> arr_item pending) (arrangesPending st),
        lastActiveList := remove item (lastActiveList st)\<rparr>"

text \<open>A burst of \<open>pushArrange\<close> calls, in order.\<close>

fun pushArranges :: "('i \<times> 'o) list \<Rightarrow> ('i, 'o, 'm) items_state \<Rightarrow> ('i, 'o, 'm) items_state" where
  "pushArranges [] st = st"
| "pushArranges (c # cs) st = pushArranges cs (pushArrange (fst c) (snd c) st)"

section \<open>Grid arrangement\<close>

text \<open>
  \<open>Items.arrange\<close> reads of its \<open>items\<close> argument (\<open>its\<close> below) only the length and the
  left margin of the first item's container, a DOM style value: \<open>marginLeft\<close> is a
  parameter. \<open>UI.rtl\<close> is a parameter too. The options object is a record of the
  properties the function reads that bear on its result; \<open>count\<close> and \<open>columns\<close> are
  absent (\<open>None\<close>) or whole numbers, and \<open>0\<close> is falsy as in the source. The value of
  \<open>dropIndex\<close> is \<open>null\<close>, \<open>false\<close> or an index.
\<close>

record arrange_options =
  opt_count :: "nat option"
  opt_addTab :: bool
  opt_columns :: "nat option"
  opt_dropPos :: "point option"
  opt_return_widthAndColumns :: bool

datatype drop_index = DropNull | DropFalse | DropAt nat

datatype arrange_result =
  Arranged (r_rects: "rect list") (r_dropIndex: drop_index) (r_columns: "nat option")
| WidthAndColumns (r_childWidth: rat) (r_wcColumns: nat)

text \<open>
  The inner function \<open>figure\<close> sets the variables \<open>rows\<close>, \<open>tabWidth\<close>, \<open>tabHeight\<close>
  and \<open>totalHeight\<close> of the enclosing call from the current column count.
\<close>

record figures =
  rows :: nat
  tabWidth :: rat
  tabHeight :: rat
  totalHeight :: rat

definition figure :: "nat \<Rightarrow> rect \<Rightarrow> rat \<Rightarrow> nat \<Rightarrow> figures" where
  "figure count bounds padding columns =
     (let validSize = calcValidSize
            (Point ((rwidth bounds - (padding * of_nat columns)) / of_nat columns) (- 1));
          r = nat \<lceil>(of_nat count :: rat) / of_nat columns\<rceil>
      in \<lparr>rows = r,
          tabWidth = px validSize,
          tabHeight = py validSize,
          totalHeight = (py validSize * of_nat r) + (padding * of_nat r)\<rparr>)"

lemma figure_rows_gt_1: "1 < rows (figure count bounds padding columns) \<Longrightarrow> columns < count"
proof (rule ccontr)
  assume r: "1 < rows (figure count bounds padding columns)" and "\<not> columns < count"
  then have le: "count \<le> columns" by simp
  have "(of_nat count :: rat) / of_nat columns \<le> 1"
  proof (cases "columns = 0")
    case True
    then show ?thesis by simp
  next
    case False
    with le show ?thesis by (simp add: divide_le_eq_1)
  qed
  then have "\<lceil>(of_nat count :: rat) / of_nat columns\<rceil> \<le> 1"
    by (simp add: ceiling_le_one)
  with r show False
    by (simp add: figure_def Let_def)
qed

text \<open>
  The loop \<open>while (rows > 1 && totalHeight > bounds.height) { columns++; figure(); }\<close>,
  returning the final column count. The source enters it with \<open>options.columns || 1\<close>,
  so \<open>columns\<close> is at least 1 at every call.
\<close>

function arrange_loop :: "nat \<Rightarrow> rect \<Rightarrow> rat \<Rightarrow> nat \<Rightarrow> nat" where
  "arrange_loop count bounds padding columns =
     (if rows (figure count bounds padding columns) > 1 \<and>
         totalHeight (figure count bounds padding columns) > rheight bounds
      then arrange_loop count bounds padding (columns + 1)
      else columns)"
  by pat_completeness auto
termination
proof (relation "measure (\<lambda>(count, bounds, padding, columns). count - columns)", goal_cases)
  case 1
  show ?case by simp
next
  case (2 count bounds padding columns)
  then have "columns < count"
    using figure_rows_gt_1 by blast
  then show ?case by simp
qed

declare arrange_loop.simps [simp del]

text \<open>
  The loop \<open>for (let a = 0; a < count; a++)\<close>: \<open>n\<close> cells remain, \<open>a\<close> is the index of the
  next one, \<open>box\<close> its rectangle, \<open>column\<close> its column. Returns the rectangles recorded
  and the final \<open>dropIndex\<close>.
\<close>

fun cells ::
  "bool \<Rightarrow> rat \<Rightarrow> rat \<Rightarrow> nat \<Rightarrow> rat \<Rightarrow> rect option \<Rightarrow> nat \<Rightarrow> nat \<Rightarrow> rect \<Rightarrow> nat \<Rightarrow> drop_index
     \<Rightarrow> rect list \<times> drop_index" where
  "cells rtl itemMargin padding columns startLeft dropRect 0 a box column dropIndex = ([], dropIndex)"
| "cells rtl itemMargin padding columns startLeft dropRect (Suc n) a box column dropIndex =
     (let dropIndex1 =
            (case dropRect of
               None \<Rightarrow> dropIndex
             | Some dr \<Rightarrow>
                 if contains (inset (- itemMargin - 1) (- itemMargin - 1) box) dr
                 then DropAt a else dropIndex);
          box1 = box\<lparr>rleft := rleft box + (if rtl then - 1 else 1) * (rwidth box + padding)\<rparr>;
          column1 = column + 1;
          box2 = (if column1 = columns
                  then box1\<lparr>rleft := startLeft, rtop := rtop box1 + rheight box1 + padding\<rparr>
                  else box1);
          column2 = (if column1 = columns then 0 else column1);
          rest = cells rtl itemMargin padding columns startLeft dropRect n (Suc a) box2 column2 dropIndex1
      in (box # fst rest, snd rest))"

text \<open>The cell count and the item margin as the first lines of \<open>Items.arrange\<close> compute them.\<close>

definition arrange_count :: "'i list option \<Rightarrow> arrange_options \<Rightarrow> nat" where
  "arrange_count its options =
     (let itemsLength = (case its of None \<Rightarrow> 0 | Some l \<Rightarrow> length l);
          count = (case opt_count options of
                     None \<Rightarrow> itemsLength
                   | Some c \<Rightarrow> if c \<noteq> 0 then c else itemsLength)
      in if opt_addTab options then count + 1 else count)"

definition arrange_itemMargin :: "('i \<Rightarrow> int) \<Rightarrow> 'i list option \<Rightarrow> rat" where
  "arrange_itemMargin marginLeft its =
     (case its of
        None \<Rightarrow> 0
      | Some [] \<Rightarrow> 0
      | Some (i # l) \<Rightarrow> of_int (marginLeft i))"

definition arrange ::
  "('i \<Rightarrow> int) \<Rightarrow> bool \<Rightarrow> 'i list option \<Rightarrow> rect \<Rightarrow> arrange_options \<Rightarrow> arrange_result" where
  "arrange marginLeft rtl its bounds options =
     (let count = arrange_count its options
      in if count = 0
         then Arranged [] (case opt_dropPos options of None \<Rightarrow> DropNull | Some p \<Rightarrow> DropAt 0) None
         else
           let columns0 = (case opt_columns options of
                             None \<Rightarrow> 1
                           | Some c \<Rightarrow> if c \<noteq> 0 then c else 1);
               itemMargin = arrange_itemMargin marginLeft its;
               padding = itemMargin * 2;
               columns = arrange_loop count bounds padding columns0;
               fig = figure count bounds padding columns;
               validSize = (if rows fig = 1
                            then calcValidSize (Point (tabWidth fig) (rheight bounds - 2 * itemMargin))
                            else Point (tabWidth fig) (tabHeight fig));
               tabWidth1 = px validSize;
               tabHeight1 = py validSize
           in if opt_return_widthAndColumns options
              then WidthAndColumns tabWidth1 columns
              else
                let initialOffset = (if rtl then rwidth bounds - tabWidth1 - padding else 0);
                    box = Rect (rleft bounds + initialOffset) (rtop bounds) tabWidth1 tabHeight1;
                    dropRect = (case opt_dropPos options of
                                  None \<Rightarrow> None
                                | Some p \<Rightarrow> Some (Rect (px p) (py p) 1 1));
                    result = cells rtl itemMargin padding columns (rleft bounds + initialOffset)
                               dropRect count 0 box 0 DropFalse
                in Arranged (fst result) (snd result) (Some columns))"

text \<open>A rectangle of at least the minimum item size.\<close>

definition minSized :: "rect \<Rightarrow> bool" where
  "minSized r \<longleftrightarrow> rwidth r \<ge> minItemWidth \<and> rheight r \<ge> minItemHeight"

section \<open>Items and the scratch data of a push-away pass\<close>

text \<open>
  Of an \<open>Item\<close> the layout code reads and writes \<open>bounds\<close> and reads \<open>userSize\<close>
  (\<open>null\<close> is \<open>None\<close>). The top-level items are the list \<open>Items.items\<close>; an item is
  identified by its position in that list, and the \<open>pusher\<close> reference of the scratch
  record is such a position. The generation is a number or \<open>Infinity\<close>.
\<close>

record item =
  bounds :: rect
  userSize :: "point option"

record pushAwayData =
  dbounds :: rect
  startBounds :: rect
  generation :: enat
  pusher :: "nat option"

datatype error = TypeError

text \<open>Modelled from the spec: \<open>Rect.equals\<close> is exact comparison of the four fields.\<close>

definition equals :: "rect \<Rightarrow> rect \<Rightarrow> bool" where
  "equals this r \<longleftrightarrow>
     rleft r = rleft this \<and> rtop r = rtop this \<and> rwidth r = rwidth this \<and> rheight r = rheight this"

text \<open>
  \<open>Items.getSafeWindowBounds\<close>; \<open>window.innerWidth\<close> and \<open>window.innerHeight\<close> are
  parameters.
\<close>

definition getSafeWindowBounds :: "rat \<Rightarrow> rat \<Rightarrow> rect" where
  "getSafeWindowBounds innerWidth innerHeight =
     (let gutter = defaultGutter;
          topGutter = 5
      in Rect gutter topGutter (innerWidth - 2 * gutter) (innerHeight - gutter - topGutter))"

text \<open>
  \<open>Item.setBounds\<close>, without its effects on the DOM and on the trenches: the size is
  validated, and the bounds are replaced unless all four fields are already equal.
\<close>

definition setBounds :: "rect \<Rightarrow> item \<Rightarrow> item" where
  "setBounds inRect item =
     (let validSize = calcValidSize (Point (rwidth inRect) (rheight inRect));
          r = Rect (rleft inRect) (rtop inRect) (px validSize) (py validSize)
      in if rleft r \<noteq> rleft (bounds item) \<or> rtop r \<noteq> rtop (bounds item) \<or>
            rwidth r \<noteq> rwidth (bounds item) \<or> rheight r \<noteq> rheight (bounds item)
         then item\<lparr>bounds := r\<rparr>
         else item)"

section \<open>Push-away: propagation\<close>

text \<open>The margin \<open>Math.floor(Items.defaultGutter / 2)\<close> added around every box.\<close>

definition buffer :: rat where
  "buffer = of_int \<lfloor>defaultGutter / 2\<rfloor>"

definition pushAway_setupPushAwayData :: "item \<Rightarrow> pushAwayData" where
  "pushAway_setupPushAwayData item =
     \<lparr>dbounds = bounds item, startBounds = bounds item, generation = \<infinity>, pusher = None\<rparr>"

text \<open>
  The callback \<open>Item_pushAway_pushOne_pushEach\<close> for the item at position \<open>item\<close> with
  scratch record \<open>data\<close>; \<open>bb\<close> and \<open>bbc\<close> are the inflated bounds of the base and
  their centre, \<open>baseGeneration\<close> is \<open>baseData.generation\<close>. Returns the record after
  the call and whether the item was appended to \<open>itemsToPush\<close>.
\<close>

definition pushEach :: "nat \<Rightarrow> enat \<Rightarrow> rect \<Rightarrow> point \<Rightarrow> nat \<Rightarrow> pushAwayData \<Rightarrow> pushAwayData \<times> bool" where
  "pushEach baseItem baseGeneration bb bbc item data =
     (if item = baseItem then (data, False)
      else if generation data \<le> baseGeneration then (data, False)
      else
        let box = inset (- buffer) (- buffer) (dbounds data)
        in if intersects box bb
           then
             let c = center box;
                 off =
                   (if \<bar>px c - px bbc\<bar> < \<bar>py c - py bbc\<bar>
                    then (if py c > py bbc
                          then Point 0 (rbottom bb - rtop box)
                          else Point 0 (rtop bb - rbottom box))
                    else (if px c > px bbc
                          then Point (rright bb - rleft box) 0
                          else Point (rleft bb - rright box) 0))
             in (data\<lparr>dbounds := offset off (dbounds data),
                      generation := baseGeneration + 1,
                      pusher := Some baseItem\<rparr>, True)
           else (data, False))"

text \<open>The \<open>items.forEach\<close> of \<open>pushOne\<close>, from position \<open>item\<close> on.\<close>

fun pushEachFrom ::
  "nat \<Rightarrow> enat \<Rightarrow> rect \<Rightarrow> point \<Rightarrow> nat \<Rightarrow> pushAwayData list \<Rightarrow> pushAwayData list \<times> nat list" where
  "pushEachFrom baseItem baseGeneration bb bbc item [] = ([], [])"
| "pushEachFrom baseItem baseGeneration bb bbc item (data # datas) =
     (let r = pushEach baseItem baseGeneration bb bbc item data;
          rest = pushEachFrom baseItem baseGeneration bb bbc (Suc item) datas
      in (fst r # fst rest, (if snd r then [item] else []) @ snd rest))"

text \<open>\<open>pushOne\<close> returns the scratch records and the items it appended to \<open>itemsToPush\<close>.\<close>

definition pushOne :: "nat \<Rightarrow> pushAwayData list \<Rightarrow> pushAwayData list \<times> nat list" where
  "pushOne baseItem datas =
     (let baseData = datas ! baseItem;
          bb = inset (- buffer) (- buffer) (dbounds baseData);
          bbc = center bb
      in pushEachFrom baseItem (generation baseData) bb bbc 0 datas)"

text \<open>The loop \<open>while (itemsToPush.length) pushOne(itemsToPush.shift())\<close>.\<close>

partial_function (option) pushLoop :: "pushAwayData list \<Rightarrow> nat list \<Rightarrow> pushAwayData list option" where
  "pushLoop datas itemsToPush =
     (case itemsToPush of
        [] \<Rightarrow> Some datas
      | baseItem # rest \<Rightarrow>
          pushLoop (fst (pushOne baseItem datas)) (rest @ snd (pushOne baseItem datas)))"

declare pushLoop.simps [code]

text \<open>Setup and seeding, then the propagation loop; \<open>this\<close> is the position of the receiver.\<close>

definition seeded :: "item list \<Rightarrow> nat \<Rightarrow> pushAwayData list" where
  "seeded its this =
     (let datas = map pushAway_setupPushAwayData its
      in datas[this := (datas ! this)\<lparr>generation := 0\<rparr>])"

definition propagate :: "item list \<Rightarrow> nat \<Rightarrow> pushAwayData list option" where
  "propagate its this = pushLoop (seeded its this) [this]"

section \<open>Push-away: squish\<close>

text \<open>
  Division of a step by \<open>data.generation\<close>; a number divided by \<open>Infinity\<close> is 0. The
  squish callback returns before dividing when the generation is 0.
\<close>

definition div_generation :: "rat \<Rightarrow> enat \<Rightarrow> rat" where
  "div_generation a g = (case g of enat n \<Rightarrow> a / of_nat n | \<infinity> \<Rightarrow> 0)"

text \<open>The recursive inner function \<open>apply\<close> of the squish step.\<close>

partial_function (option) squish_apply ::
  "pushAwayData list \<Rightarrow> nat \<Rightarrow> point \<Rightarrow> point \<Rightarrow> point \<Rightarrow> pushAwayData list option" where
  "squish_apply datas item posStep posStep2 sizeStep =
     (if generation (datas ! item) = 0 then Some datas
      else
        let data = datas ! item;
            b = dbounds data;
            b1 = b\<lparr>rwidth := rwidth b - px sizeStep, rheight := rheight b - py sizeStep,
                   rleft := rleft b + px posStep, rtop := rtop b + py posStep\<rparr>;
            validSize = calcValidSize (Point (rwidth b1) (rheight b1));
            b2 = b1\<lparr>rwidth := px validSize, rheight := py validSize\<rparr>;
            datas1 = datas[item := data\<lparr>dbounds := b2\<rparr>]
        in case pusher data of
             None \<Rightarrow> Some datas1
           | Some p \<Rightarrow>
               squish_apply datas1 p
                 (Point (px posStep + px posStep2) (py posStep + py posStep2)) posStep2 sizeStep)"

declare squish_apply.simps [code]

record squish_steps =
  posStep :: point
  posStep2 :: point
  sizeStep :: point

text \<open>The steps the squish callback derives from an item's bounds and the page bounds.\<close>

definition squish_steps_of :: "rect \<Rightarrow> pushAwayData \<Rightarrow> squish_steps" where
  "squish_steps_of pageBounds data =
     (let b = dbounds data;
          g = generation data;
          sx = (if rleft b < rleft pageBounds
                then (let p = rleft pageBounds - rleft b; s = div_generation p g in (p, - s, s))
                else if rright b > rright pageBounds
                then (let p = rright pageBounds - rright b; s = div_generation (- p) g in (p + s, s, s))
                else (0, 0, 0));
          sy = (if rtop b < rtop pageBounds
                then (let p = rtop pageBounds - rtop b; s = div_generation p g in (p, - s, s))
                else if rbottom b > rbottom pageBounds
                then (let p = rbottom pageBounds - rbottom b; s = div_generation (- p) g in (p + s, s, s))
                else (0, 0, 0))
      in \<lparr>posStep = Point (fst sx) (fst sy),
          posStep2 = Point (fst (snd sx)) (fst (snd sy)),
          sizeStep = Point (snd (snd sx)) (snd (snd sy))\<rparr>)"

text \<open>The callback \<open>Item_pushAway_squish\<close> for the item at position \<open>item\<close>.\<close>

definition squish_item :: "rect \<Rightarrow> pushAwayData list \<Rightarrow> nat \<Rightarrow> pushAwayData list option" where
  "squish_item pageBounds datas item =
     (let data = datas ! item
      in if generation data = 0 then Some datas
         else
           let st = squish_steps_of pageBounds data
           in if px (posStep st) \<noteq> 0 \<or> py (posStep st) \<noteq> 0 \<or>
                 px (sizeStep st) \<noteq> 0 \<or> py (sizeStep st) \<noteq> 0
              then squish_apply datas item (posStep st) (posStep2 st) (sizeStep st)
              else Some datas)"

text \<open>The \<open>items.forEach\<close> of the squish step, over the positions given.\<close>

fun squish :: "rect \<Rightarrow> nat list \<Rightarrow> pushAwayData list \<Rightarrow> pushAwayData list option" where
  "squish pageBounds [] datas = Some datas"
| "squish pageBounds (item # rest) datas =
     (case squish_item pageBounds datas item of
        None \<Rightarrow> None
      | Some datas1 \<Rightarrow> squish pageBounds rest datas1)"

section \<open>Unsquish\<close>

text \<open>
  \<open>Items.unsquish\<close> as \<open>pushAway\<close> calls it: with the pairs of every item and its scratch
  bounds, and no item to ignore. Every item has \<open>isAItem\<close> set.
\<close>

definition unsquish_newSize :: "item \<Rightarrow> point" where
  "unsquish_newSize item =
     (case userSize item of
        Some p \<Rightarrow> p
      | None \<Rightarrow> calcValidSize (Point minItemWidth (- 1)))"

definition unsquish_newBounds :: "rect \<Rightarrow> item \<Rightarrow> rect \<Rightarrow> rect" where
  "unsquish_newBounds pageBounds item b =
     (let newSize = unsquish_newSize item;
          n1 = b\<lparr>rwidth := max (rwidth b) (px newSize), rheight := max (rheight b) (py newSize)\<rparr>;
          n2 = n1\<lparr>rleft := rleft n1 - (rwidth n1 - rwidth b) / 2,
                   rtop := rtop n1 - (rheight n1 - rheight b) / 2\<rparr>;
          off = Point
                  (if rleft n2 < rleft pageBounds then rleft pageBounds - rleft n2
                   else if rright n2 > rright pageBounds then rright pageBounds - rright n2
                   else 0)
                  (if rtop n2 < rtop pageBounds then rtop pageBounds - rtop n2
                   else if rbottom n2 > rbottom pageBounds then rbottom pageBounds - rbottom n2
                   else 0)
      in offset off n2)"

text \<open>Whether some other pair's bounds intersect \<open>newBounds\<close>.\<close>

fun blockedFrom :: "nat \<Rightarrow> rect \<Rightarrow> nat \<Rightarrow> rect list \<Rightarrow> bool" where
  "blockedFrom i newBounds j [] = False"
| "blockedFrom i newBounds j (bounds2 # rest) =
     ((j \<noteq> i \<and> intersects bounds2 newBounds) \<or> blockedFrom i newBounds (Suc j) rest)"

text \<open>The callback of \<open>unsquish\<close> for the pair at position \<open>i\<close>.\<close>

definition unsquish_pair :: "rect \<Rightarrow> item list \<Rightarrow> nat \<Rightarrow> rect list \<Rightarrow> rect list" where
  "unsquish_pair pageBounds its i bs =
     (let newBounds = unsquish_newBounds pageBounds (its ! i) (bs ! i)
      in if \<not> equals (bs ! i) newBounds \<and> \<not> blockedFrom i newBounds 0 bs
         then bs[i := newBounds]
         else bs)"

text \<open>The \<open>pairs.forEach\<close> of \<open>unsquish\<close>, over the positions given, on the bounds of the pairs.\<close>

fun unsquish :: "rect \<Rightarrow> item list \<Rightarrow> nat list \<Rightarrow> rect list \<Rightarrow> rect list" where
  "unsquish pageBounds its [] bs = bs"
| "unsquish pageBounds its (i # rest) bs = unsquish pageBounds its rest (unsquish_pair pageBounds its i bs)"

section \<open>Push-away: the whole pass\<close>

text \<open>
  The pairs that \<open>pushAway\<close> hands to \<open>Items.unsquish\<close> share their bounds objects with
  the scratch records: after the call, the record of an item holds the bounds of its pair.
\<close>

definition pushAway_unsquish :: "rect \<Rightarrow> item list \<Rightarrow> pushAwayData list \<Rightarrow> pushAwayData list" where
  "pushAway_unsquish pageBounds its datas =
     map (\<lambda>(data, b). data\<lparr>dbounds := b\<rparr>)
       (zip datas (unsquish pageBounds its [0..<length its] (map dbounds datas)))"

text \<open>The last \<open>forEach\<close> of \<open>pushAway\<close>: bounds that differ from the start bounds are applied.\<close>

fun applyChanges :: "item list \<Rightarrow> pushAwayData list \<Rightarrow> item list" where
  "applyChanges (item # its) (data # datas) =
     (if \<not> equals (dbounds data) (startBounds data) then setBounds (dbounds data) item else item)
       # applyChanges its datas"
| "applyChanges its datas = its"

text \<open>
  The scratch records when the receiver is not a top-level item. The setup loop gives
  every item a fresh record and does not reach the receiver, which keeps the record an
  earlier pass left on it; seeding sets the generation of that record to 0. The record
  is placed behind those of the items, so that the receiver has position \<open>length its\<close>.
  It is only read as a base: \<open>pushEach\<close> passes over the base and over records of
  generation 0, \<open>apply\<close> returns on generation 0 before it reads the pusher, and the
  squish, unsquish and final loops range over the items. The pusher reference left on
  the record is therefore never read, and is dropped.
\<close>

definition seeded_outside :: "item list \<Rightarrow> pushAwayData \<Rightarrow> pushAwayData list" where
  "seeded_outside its stale =
     map pushAway_setupPushAwayData its @ [stale\<lparr>generation := 0, pusher := None\<rparr>]"

text \<open>
  \<open>Item.pushAway\<close> for the receiver at position \<open>this\<close> of the top-level items. The result
  is \<open>None\<close> if the pass does not return. A position outside the list stands for a
  receiver that is not a top-level item; \<open>stale\<close> is the \<open>pushAwayData\<close> an earlier pass
  left on such a receiver, if any. Without one, seeding fails; with one, the pass runs
  from that record and moves the top-level items.
\<close>

definition pushAway ::
  "rat \<Rightarrow> rat \<Rightarrow> item list \<Rightarrow> nat \<Rightarrow> pushAwayData option \<Rightarrow> (error + item list) option" where
  "pushAway innerWidth innerHeight its this stale =
     (if length its < 2 then Some (Inr its)
      else if this < length its
      then
        case propagate its this of
          None \<Rightarrow> None
        | Some datas \<Rightarrow>
            let pageBounds = getSafeWindowBounds innerWidth innerHeight
            in case squish pageBounds [0..<length its] datas of
                 None \<Rightarrow> None
               | Some datas1 \<Rightarrow>
                   Some (Inr (applyChanges its (pushAway_unsquish pageBounds its datas1)))
      else
        case stale of
          None \<Rightarrow> Some (Inl TypeError)
        | Some staleData \<Rightarrow>
            case pushLoop (seeded_outside its staleData) [length its] of
              None \<Rightarrow> None
            | Some datas \<Rightarrow>
                let pageBounds = getSafeWindowBounds innerWidth innerHeight
                in case squish pageBounds [0..<length its] datas of
                     None \<Rightarrow> None
                   | Some datas1 \<Rightarrow>
                       Some (Inr (applyChanges its
                         (pushAway_unsquish pageBounds its (take (length its) datas1)))))"

section \<open>Invariants of the propagation\<close>

text \<open>
  The breadth-first discipline of the loop, stated on the scratch records \<open>datas\<close> and the
  queue \<open>itemsToPush\<close>: queued items have a finite generation; the queue is ordered by
  generation; no finite generation exceeds that of a queued item by more than one; a
  recorded pusher is one generation below the item it pushed, and the two inflated
  bounds do not intersect; an item of positive generation has a pusher.
\<close>

definition bfs_inv :: "pushAwayData list \<Rightarrow> nat list \<Rightarrow> bool" where
  "bfs_inv datas itemsToPush \<longleftrightarrow>
     (\<forall>b \<in> set itemsToPush. b < length datas \<and> generation (datas ! b) \<noteq> \<infinity>) \<and>
     sorted (map (\<lambda>b. generation (datas ! b)) itemsToPush) \<and>
     (\<forall>b \<in> set itemsToPush. \<forall>i < length datas.
        generation (datas ! i) \<noteq> \<infinity> \<longrightarrow> generation (datas ! i) \<le> generation (datas ! b) + 1) \<and>
     (\<forall>i < length datas. \<forall>p. pusher (datas ! i) = Some p \<longrightarrow>
        p < length datas \<and> generation (datas ! p) \<noteq> \<infinity> \<and>
        generation (datas ! i) = generation (datas ! p) + 1 \<and>
        \<not> intersects (inset (- buffer) (- buffer) (dbounds (datas ! i)))
                      (inset (- buffer) (- buffer) (dbounds (datas ! p)))) \<and>
     (\<forall>i < length datas. \<forall>n. generation (datas ! i) = enat (Suc n) \<longrightarrow> pusher (datas ! i) \<noteq> None)"

text \<open>The weight of the queue that every iteration of the loop decreases.\<close>

definition queueWeight :: "pushAwayData list \<Rightarrow> nat list \<Rightarrow> nat" where
  "queueWeight datas itemsToPush =
     sum_list (map (\<lambda>b. Suc (length datas) ^ (length datas - the_enat (generation (datas ! b))))
       itemsToPush)"

text \<open>What the propagation leaves untouched: the number of records, the start bounds and the sizes.\<close>

definition framed :: "item list \<Rightarrow> pushAwayData list \<Rightarrow> bool" where
  "framed its datas \<longleftrightarrow>
     length datas = length its \<and>
     (\<forall>i < length its.
        startBounds (datas ! i) = bounds (its ! i) \<and>
        rwidth (dbounds (datas ! i)) = rwidth (bounds (its ! i)) \<and>
        rheight (dbounds (datas ! i)) = rheight (bounds (its ! i)))"

section \<open>Invariants of the squish step\<close>

text \<open>
  What the squish step relies on and keeps: every recorded pusher is a position of the
  list and is one generation below the item it pushed.
\<close>

definition chain_inv :: "pushAwayData list \<Rightarrow> bool" where
  "chain_inv datas \<longleftrightarrow>
     (\<forall>i < length datas. \<forall>p. pusher (datas ! i) = Some p \<longrightarrow>
        p < length datas \<and> generation (datas ! p) \<noteq> \<infinity> \<and>
        generation (datas ! i) = generation (datas ! p) + 1)"

text \<open>
  Two lists of scratch records that differ only in bounds, where every bounds the second
  list does not share with the first has at least the minimum size.
\<close>

definition squished :: "pushAwayData list \<Rightarrow> pushAwayData list \<Rightarrow> bool" where
  "squished datas datas1 \<longleftrightarrow>
     length datas1 = length datas \<and>
     (\<forall>j < length datas.
        generation (datas1 ! j) = generation (datas ! j) \<and>
        pusher (datas1 ! j) = pusher (datas ! j) \<and>
        startBounds (datas1 ! j) = startBounds (datas ! j) \<and>
        (dbounds (datas1 ! j) = dbounds (datas ! j) \<or> minSized (dbounds (datas1 ! j))))"

section \<open>Size validation\<close>

text \<open>
  Claim C8. For every point satisfying the precondition asserted by \<open>calcValidSize\<close>,
  the result is at least the minimum item width and height, and validating a second
  time changes nothing.
\<close>

theorem calcValidSize_min_idem:
  assumes "calcValidSize_pre p"
  shows "px (calcValidSize p) \<ge> minItemWidth \<and> py (calcValidSize p) \<ge> minItemHeight \<and>
         calcValidSize (calcValidSize p) = calcValidSize p"
  by (simp add: calcValidSize_def Point_def)

theorem calcValidSize_min_idem_witness:
  "calcValidSize_pre (Point 40 (-1)) \<and>
   calcValidSize (Point 40 (-1)) = Point 125 110 \<and>
   calcValidSize (calcValidSize (Point 40 (-1))) = calcValidSize (Point 40 (-1))"
  using calcValidSize_min_idem [of "Point 40 (-1)"]
  by (simp add: calcValidSize_pre_def calcValidSize_def Point_def minItemWidth_def minItemHeight_def)

section \<open>Coalescing of paused arrange calls\<close>

lemma pendingIndex_less_iff: "pendingIndex item gs < length gs \<longleftrightarrow> item \<in> arr_item ` set gs"
  by (induction gs) auto

lemma pendingIndex_nth: "pendingIndex item gs < length gs \<Longrightarrow> arr_item (gs ! pendingIndex item gs) = item"
  by (induction gs) auto

lemma map_item_update:
  "i < length gs \<Longrightarrow> arr_item (gs ! i) = arr_item g \<Longrightarrow> map arr_item (gs[i := g]) = map arr_item gs"
  by (induction gs arbitrary: i) (auto split: nat.splits)

lemma pushArrange_items_known:
  assumes "item \<in> arr_item ` set (arrangesPending st)"
  shows "map arr_item (arrangesPending (pushArrange item options st)) = map arr_item (arrangesPending st)"
proof -
  let ?i = "pendingIndex item (arrangesPending st)"
  have lt: "?i < length (arrangesPending st)"
    using assms by (simp add: pendingIndex_less_iff)
  then have "arr_item (arrangesPending st ! ?i) = item"
    by (rule pendingIndex_nth)
  with lt show ?thesis
    by (simp add: pushArrange_def Let_def map_item_update)
qed

lemma pushArrange_items_new:
  assumes "item \<notin> arr_item ` set (arrangesPending st)"
  shows "arrangesPending (pushArrange item options st) =
         arrangesPending st @ [\<lparr>arr_item = item, arr_options = options\<rparr>]"
  using assms by (simp add: pushArrange_def Let_def pendingIndex_less_iff)

lemma pushArrange_distinct:
  assumes "distinct (map arr_item (arrangesPending st))"
  shows "distinct (map arr_item (arrangesPending (pushArrange item options st)))"
proof (cases "item \<in> arr_item ` set (arrangesPending st)")
  case True
  with assms show ?thesis by (simp add: pushArrange_items_known)
next
  case False
  with assms show ?thesis by (simp add: pushArrange_items_new)
qed

lemma pushArrange_paused: "arrangePaused (pushArrange item options st) = arrangePaused st"
  by (simp add: pushArrange_def Let_def)

lemma pushArranges_distinct:
  "distinct (map arr_item (arrangesPending st)) \<Longrightarrow>
   distinct (map arr_item (arrangesPending (pushArranges cs st)))"
  by (induction cs arbitrary: st) (auto intro: pushArrange_distinct)

lemma pushArrange_entry:
  assumes "distinct (map arr_item (arrangesPending st))"
      and "g \<in> set (arrangesPending (pushArrange item options st))"
  shows "(arr_item g = item \<longrightarrow> arr_options g = options) \<and>
         (arr_item g \<noteq> item \<longrightarrow> g \<in> set (arrangesPending st))"
proof (cases "item \<in> arr_item ` set (arrangesPending st)")
  case False
  with assms(2) show ?thesis by (auto simp: pushArrange_items_new)
next
  case True
  let ?gs = "arrangesPending st"
  let ?i = "pendingIndex item ?gs"
  let ?new = "\<lparr>arr_item = item, arr_options = options\<rparr>"
  have lt: "?i < length ?gs"
    using True by (simp add: pendingIndex_less_iff)
  have upd: "arrangesPending (pushArrange item options st) = ?gs[?i := ?new]"
    using lt by (simp add: pushArrange_def Let_def)
  have d: "distinct (map arr_item (?gs[?i := ?new]))"
    using pushArrange_distinct [OF assms(1), of item options] upd by simp
  from assms(2) upd obtain k where k: "k < length ?gs" "g = (?gs[?i := ?new]) ! k"
    by (auto simp: in_set_conv_nth)
  show ?thesis
  proof (cases "k = ?i")
    case True
    with k lt show ?thesis by simp
  next
    case False
    with k have gk: "g = ?gs ! k" by simp
    have "arr_item (?gs ! k) \<noteq> arr_item (?gs ! ?i)"
      using assms(1) False k(1) lt by (simp add: distinct_conv_nth)
    then have "arr_item g \<noteq> item"
      using gk pendingIndex_nth [OF lt] by simp
    with gk k(1) show ?thesis by simp
  qed
qed

lemma replay_map: "replay gs = map (\<lambda>g. Arrange (arr_item g) (arr_options g)) gs"
  by (induction gs) auto

text \<open>
  Claim C9. While arranges are paused, a burst of \<open>pushArrange\<close> calls starting from
  the empty pending list leaves at most one entry per item; a call for an item that is
  already pending keeps the order of the pending items, gives that item the new options
  and leaves every other entry as it was; a call for a new item appends; and
  \<open>resumeArrange\<close> issues exactly the pending calls, in list order, and empties the list.
\<close>

theorem pushArrange_coalesces:
  fixes st :: "('i, 'o, 'm) items_state" and cs :: "('i \<times> 'o) list" and item :: 'i and options :: 'o
  assumes "pushArrange_pre st" and "arrangesPending st = []"
  defines "st1 \<equiv> pushArranges cs st"
  defines "st2 \<equiv> pushArrange item options st1"
  shows "pushArrange_pre st1 \<and>
         distinct (map arr_item (arrangesPending st1)) \<and>
         distinct (map arr_item (arrangesPending st2)) \<and>
         (item \<in> arr_item ` set (arrangesPending st1) \<longrightarrow>
            map arr_item (arrangesPending st2) = map arr_item (arrangesPending st1)) \<and>
         (item \<notin> arr_item ` set (arrangesPending st1) \<longrightarrow>
            arrangesPending st2 = arrangesPending st1 @ [\<lparr>arr_item = item, arr_options = options\<rparr>]) \<and>
         (\<forall>g \<in> set (arrangesPending st2).
            (arr_item g = item \<longrightarrow> arr_options g = options) \<and>
            (arr_item g \<noteq> item \<longrightarrow> g \<in> set (arrangesPending st1))) \<and>
         snd (resumeArrange st2) = map (\<lambda>g. Arrange (arr_item g) (arr_options g)) (arrangesPending st2) \<and>
         arrangesPending (fst (resumeArrange st2)) = [] \<and>
         \<not> arrangePaused (fst (resumeArrange st2))"
proof -
  have paused: "arrangePaused (pushArranges cs s) = arrangePaused s" for s :: "('i, 'o, 'm) items_state"
    by (induction cs arbitrary: s) (auto simp: pushArrange_paused)
  have p1: "pushArrange_pre st1"
    using assms(1) by (simp add: pushArrange_pre_def st1_def paused)
  have d1: "distinct (map arr_item (arrangesPending st1))"
    unfolding st1_def using assms(2) by (intro pushArranges_distinct) simp
  have d2: "distinct (map arr_item (arrangesPending st2))"
    unfolding st2_def using d1 by (rule pushArrange_distinct)
  have k: "item \<in> arr_item ` set (arrangesPending st1) \<longrightarrow>
            map arr_item (arrangesPending st2) = map arr_item (arrangesPending st1)"
    unfolding st2_def by (simp add: pushArrange_items_known)
  have n: "item \<notin> arr_item ` set (arrangesPending st1) \<longrightarrow>
            arrangesPending st2 = arrangesPending st1 @ [\<lparr>arr_item = item, arr_options = options\<rparr>]"
    unfolding st2_def by (simp add: pushArrange_items_new)
  have e: "\<forall>g \<in> set (arrangesPending st2).
            (arr_item g = item \<longrightarrow> arr_options g = options) \<and>
            (arr_item g \<noteq> item \<longrightarrow> g \<in> set (arrangesPending st1))"
    unfolding st2_def using pushArrange_entry [OF d1, of _ item options] by blast
  have r: "snd (resumeArrange st2) = map (\<lambda>g. Arrange (arr_item g) (arr_options g)) (arrangesPending st2)"
    by (simp add: resumeArrange_def replay_map)
  have c: "arrangesPending (fst (resumeArrange st2)) = []"
    by (simp add: resumeArrange_def)
  have u: "\<not> arrangePaused (fst (resumeArrange st2))"
    by (simp add: resumeArrange_def)
  from p1 d1 d2 k n e r c u show ?thesis
    by (intro conjI)
qed

theorem pushArrange_coalesces_witness:
  "pushArrange_pre \<lparr>items = [], activeItem = None, arrangePaused = True, arrangesPending = [],
      lastActiveList = ()\<rparr> \<and>
   arrangesPending (pushArrange (2::nat) (40::nat)
      (pushArranges [(1, 10), (2, 20), (1, 30)]
        \<lparr>items = [], activeItem = None, arrangePaused = True, arrangesPending = [],
         lastActiveList = ()\<rparr>)) =
     [\<lparr>arr_item = 1, arr_options = 30\<rparr>, \<lparr>arr_item = 2, arr_options = 40\<rparr>] \<and>
   snd (resumeArrange (pushArrange (2::nat) (40::nat)
      (pushArranges [(1, 10), (2, 20), (1, 30)]
        \<lparr>items = [], activeItem = None, arrangePaused = True, arrangesPending = [],
         lastActiveList = ()\<rparr>))) = [Arrange 1 30, Arrange 2 40]"
  using pushArrange_coalesces [where st = "\<lparr>items = [], activeItem = None, arrangePaused = True,
      arrangesPending = [], lastActiveList = ()\<rparr>" and cs = "[(1, 10), (2, 20), (1, 30)]"
      and item = "2::nat" and options = "40::nat"]
  by (simp add: pushArrange_pre_def pushArrange_def resumeArrange_def)

section \<open>Unregistering an item\<close>

lemma register_distinct:
  "register_pre item st \<Longrightarrow> distinct (items st) \<Longrightarrow> distinct (items (register item st))"
  by (simp add: register_pre_def register_def)

lemma filter_neq_absent: "x \<notin> set xs \<Longrightarrow> filter (\<lambda>y. y \<noteq> x) xs = xs"
  by (induction xs) auto

lemma remove1_filter_distinct: "distinct xs \<Longrightarrow> remove1 x xs = filter (\<lambda>y. y \<noteq> x) xs"
  by (induction xs) (auto simp: filter_neq_absent)

text \<open>
  Claim C10. In a registry whose item list has no duplicates (what \<open>register\<close> asserts
  before adding), after \<open>unregister\<close> the item is in neither the item list nor the
  pending queue, the active-item pointer is null if it pointed to the item and is
  unchanged otherwise, and the other items and pending entries are kept in order.
\<close>

theorem unregister_no_dangling:
  fixes st :: "('i, 'o, 'm) items_state" and item :: 'i and remove :: "'i \<Rightarrow> 'm \<Rightarrow> 'm"
  assumes "distinct (items st)"
  defines "st' \<equiv> unregister remove item st"
  shows "item \<notin> set (items st') \<and>
         item \<notin> arr_item ` set (arrangesPending st') \<and>
         activeItem st' \<noteq> Some item \<and>
         (activeItem st = Some item \<longrightarrow> activeItem st' = None) \<and>
         (activeItem st \<noteq> Some item \<longrightarrow> activeItem st' = activeItem st) \<and>
         items st' = filter (\<lambda>i. i \<noteq> item) (items st) \<and>
         arrangesPending st' = filter (\<lambda>g. arr_item g \<noteq> item) (arrangesPending st) \<and>
         arrangePaused st' = arrangePaused st"
proof -
  have i: "items st' = filter (\<lambda>i. i \<noteq> item) (items st)"
    using assms(1) by (simp add: st'_def unregister_def remove1_filter_distinct)
  have "filter (\<lambda>pending. item \<noteq> arr_item pending) (arrangesPending st) =
        filter (\<lambda>g. arr_item g \<noteq> item) (arrangesPending st)"
    by (rule filter_cong) auto
  then have p: "arrangesPending st' = filter (\<lambda>g. arr_item g \<noteq> item) (arrangesPending st)"
    by (simp add: st'_def unregister_def)
  have a: "activeItem st' = (if Some item = activeItem st then None else activeItem st)"
    by (simp add: st'_def unregister_def)
  have q: "arrangePaused st' = arrangePaused st"
    by (simp add: st'_def unregister_def)
  have i1: "item \<notin> set (items st')"
    by (simp add: i)
  have p1: "item \<notin> arr_item ` set (arrangesPending st')"
    by (auto simp: p)
  have a1: "activeItem st' \<noteq> Some item"
    using a by (cases "Some item = activeItem st") auto
  have a2: "activeItem st = Some item \<longrightarrow> activeItem st' = None"
    by (auto simp: a)
  have a3: "activeItem st \<noteq> Some item \<longrightarrow> activeItem st' = activeItem st"
    using a by (metis)
  from i1 p1 a1 a2 a3 i p q show ?thesis
    by (intro conjI)
qed

theorem unregister_no_dangling_witness:
  "distinct [1, 2, 3 :: nat] \<and>
   unregister (\<lambda>i m. m) (2::nat)
     \<lparr>items = [1, 2, 3], activeItem = Some 2, arrangePaused = False,
      arrangesPending = [\<lparr>arr_item = 2, arr_options = ()\<rparr>, \<lparr>arr_item = 3, arr_options = ()\<rparr>],
      lastActiveList = ()\<rparr> =
     \<lparr>items = [1, 3], activeItem = None, arrangePaused = False,
      arrangesPending = [\<lparr>arr_item = 3, arr_options = ()\<rparr>], lastActiveList = ()\<rparr>"
  using unregister_no_dangling [where st = "\<lparr>items = [1, 2, 3 :: nat], activeItem = Some 2,
      arrangePaused = False,
      arrangesPending = [\<lparr>arr_item = 2, arr_options = ()\<rparr>, \<lparr>arr_item = 3, arr_options = ()\<rparr>],
      lastActiveList = ()\<rparr>" and remove = "\<lambda>i m. m" and item = 2]
  by (simp add: unregister_def)

section \<open>Grid arrangement: the drop index\<close>

lemma cells_length:
  "length (fst (cells rtl itemMargin padding columns startLeft dropRect n a box column dropIndex)) = n"
  by (induction n arbitrary: a box column dropIndex) (simp_all add: Let_def)

lemma cells_no_match:
  assumes "\<forall>r \<in> set (fst (cells rtl m padding columns startLeft (Some dr) n a box column dropIndex)).
             \<not> contains (inset (- m - 1) (- m - 1) r) dr"
  shows "snd (cells rtl m padding columns startLeft (Some dr) n a box column dropIndex) = dropIndex"
  using assms
proof (induction n arbitrary: a box column dropIndex)
  case 0
  show ?case by simp
next
  case (Suc n)
  from Suc.prems have nb: "\<not> contains (inset (- m - 1) (- m - 1) box) dr"
    by (simp add: Let_def)
  from Suc.prems nb show ?case
    by (simp add: Let_def Suc.IH)
qed

lemma cells_last_match:
  assumes "k < n"
      and "contains (inset (- m - 1) (- m - 1)
             (fst (cells rtl m padding columns startLeft (Some dr) n a box column dropIndex) ! k)) dr"
      and "\<forall>j. k < j \<and> j < n \<longrightarrow> \<not> contains (inset (- m - 1) (- m - 1)
             (fst (cells rtl m padding columns startLeft (Some dr) n a box column dropIndex) ! j)) dr"
  shows "snd (cells rtl m padding columns startLeft (Some dr) n a box column dropIndex) = DropAt (a + k)"
  using assms
proof (induction n arbitrary: a box column dropIndex k)
  case 0
  then show ?case by simp
next
  case (Suc n)
  let ?box1 = "box\<lparr>rleft := rleft box + (if rtl then - 1 else 1) * (rwidth box + padding)\<rparr>"
  let ?box2 = "if column + 1 = columns
               then ?box1\<lparr>rleft := startLeft, rtop := rtop ?box1 + rheight ?box1 + padding\<rparr>
               else ?box1"
  let ?column2 = "if column + 1 = columns then 0 else column + 1"
  let ?d1 = "if contains (inset (- m - 1) (- m - 1) box) dr then DropAt a else dropIndex"
  let ?rest = "cells rtl m padding columns startLeft (Some dr) n (Suc a) ?box2 ?column2 ?d1"
  have unf: "cells rtl m padding columns startLeft (Some dr) (Suc n) a box column dropIndex =
             (box # fst ?rest, snd ?rest)"
    by (simp add: Let_def)
  show ?case
  proof (cases k)
    case 0
    with Suc.prems(2) unf have hit: "contains (inset (- m - 1) (- m - 1) box) dr"
      by simp
    have "\<forall>r \<in> set (fst ?rest). \<not> contains (inset (- m - 1) (- m - 1) r) dr"
    proof
      fix r assume "r \<in> set (fst ?rest)"
      then obtain j where j: "j < n" "r = fst ?rest ! j"
        by (auto simp: in_set_conv_nth cells_length)
      from Suc.prems(3) 0 j(1) have "\<not> contains (inset (- m - 1) (- m - 1)
          ((box # fst ?rest) ! Suc j)) dr"
        unfolding unf fst_conv by (metis Suc_less_eq zero_less_Suc)
      with j(2) show "\<not> contains (inset (- m - 1) (- m - 1) r) dr"
        by simp
    qed
    then have "snd ?rest = ?d1"
      by (rule cells_no_match)
    with hit 0 unf show ?thesis by simp
  next
    case (Suc k')
    have a1: "k' < n" using Suc.prems(1) Suc by simp
    have a2: "contains (inset (- m - 1) (- m - 1) (fst ?rest ! k')) dr"
      using Suc.prems(2) Suc unf by simp
    have a3: "\<forall>j. k' < j \<and> j < n \<longrightarrow> \<not> contains (inset (- m - 1) (- m - 1) (fst ?rest ! j)) dr"
    proof (intro allI impI)
      fix j assume "k' < j \<and> j < n"
      then have "k < Suc j \<and> Suc j < Suc n" using Suc by simp
      with Suc.prems(3) have "\<not> contains (inset (- m - 1) (- m - 1) ((box # fst ?rest) ! Suc j)) dr"
        unfolding unf fst_conv by blast
      then show "\<not> contains (inset (- m - 1) (- m - 1) (fst ?rest ! j)) dr"
        by simp
    qed
    have "snd ?rest = DropAt (Suc a + k')"
      using a1 a2 a3 by (rule Suc.IH)
    with Suc unf show ?thesis by simp
  qed
qed

lemma arrange_unfold_dropPos:
  fixes bounds :: rect
  assumes "opt_dropPos options = Some p" "\<not> opt_return_widthAndColumns options"
      and "arrange_count its options \<noteq> 0"
  shows "\<exists>columns startLeft box.
           arrange marginLeft rtl its bounds options =
             Arranged
               (fst (cells rtl (arrange_itemMargin marginLeft its) (arrange_itemMargin marginLeft its * 2)
                  columns startLeft (Some (Rect (px p) (py p) 1 1)) (arrange_count its options) 0 box 0 DropFalse))
               (snd (cells rtl (arrange_itemMargin marginLeft its) (arrange_itemMargin marginLeft its * 2)
                  columns startLeft (Some (Rect (px p) (py p) 1 1)) (arrange_count its options) 0 box 0 DropFalse))
               (Some columns)"
  using assms unfolding arrange_def Let_def
  by (simp del: if_split cong: if_cong) blast

text \<open>
  Claim C6, as amended. When a drop position is supplied, the count is at least 1 and the
  full result is asked for, \<open>arrange\<close> emits one rectangle per cell; \<open>dropIndex\<close> is
  \<open>false\<close> when no cell rectangle, grown by the item margin plus one on every side,
  contains the 1 by 1 rectangle at the drop position, and is otherwise the largest index
  of such a cell.
\<close>

theorem arrange_dropIndex:
  fixes marginLeft :: "'i \<Rightarrow> int" and rtl :: bool and its :: "'i list option" and bounds :: rect
    and options :: arrange_options and p :: point
  assumes "opt_dropPos options = Some p" and "\<not> opt_return_widthAndColumns options"
      and "arrange_count its options \<ge> 1"
  defines "res \<equiv> arrange marginLeft rtl its bounds options"
  defines "m \<equiv> arrange_itemMargin marginLeft its"
  defines "dropRect \<equiv> Rect (px p) (py p) 1 1"
  shows "length (r_rects res) = arrange_count its options \<and>
         ((\<forall>a < arrange_count its options.
              \<not> contains (inset (- m - 1) (- m - 1) (r_rects res ! a)) dropRect)
            \<longrightarrow> r_dropIndex res = DropFalse) \<and>
         (\<forall>a < arrange_count its options.
            contains (inset (- m - 1) (- m - 1) (r_rects res ! a)) dropRect \<and>
            (\<forall>b. a < b \<and> b < arrange_count its options \<longrightarrow>
               \<not> contains (inset (- m - 1) (- m - 1) (r_rects res ! b)) dropRect)
            \<longrightarrow> r_dropIndex res = DropAt a)"
proof -
  let ?n = "arrange_count its options"
  from assms(3) have "?n \<noteq> 0" by simp
  from arrange_unfold_dropPos [OF assms(1,2) this, of marginLeft rtl bounds]
  obtain columns startLeft box where
    res: "res = Arranged
               (fst (cells rtl m (m * 2) columns startLeft (Some dropRect) ?n 0 box 0 DropFalse))
               (snd (cells rtl m (m * 2) columns startLeft (Some dropRect) ?n 0 box 0 DropFalse))
               (Some columns)"
    unfolding res_def m_def dropRect_def by blast
  let ?c = "cells rtl m (m * 2) columns startLeft (Some dropRect) ?n 0 box 0 DropFalse"
  have len: "length (r_rects res) = ?n"
    by (simp add: res cells_length)
  have none: "(\<forall>a < ?n. \<not> contains (inset (- m - 1) (- m - 1) (r_rects res ! a)) dropRect)
            \<longrightarrow> r_dropIndex res = DropFalse"
  proof
    assume h: "\<forall>a < ?n. \<not> contains (inset (- m - 1) (- m - 1) (r_rects res ! a)) dropRect"
    have "\<forall>r \<in> set (fst ?c). \<not> contains (inset (- m - 1) (- m - 1) r) dropRect"
    proof
      fix r assume "r \<in> set (fst ?c)"
      then obtain j where "j < ?n" "r = fst ?c ! j"
        by (auto simp: in_set_conv_nth cells_length)
      with h res show "\<not> contains (inset (- m - 1) (- m - 1) r) dropRect" by simp
    qed
    then have "snd ?c = DropFalse" by (rule cells_no_match)
    then show "r_dropIndex res = DropFalse" by (simp add: res)
  qed
  have some: "\<forall>a < ?n.
            contains (inset (- m - 1) (- m - 1) (r_rects res ! a)) dropRect \<and>
            (\<forall>b. a < b \<and> b < ?n \<longrightarrow>
               \<not> contains (inset (- m - 1) (- m - 1) (r_rects res ! b)) dropRect)
            \<longrightarrow> r_dropIndex res = DropAt a"
  proof (intro allI impI)
    fix a
    assume a: "a < ?n"
      and h: "contains (inset (- m - 1) (- m - 1) (r_rects res ! a)) dropRect \<and>
            (\<forall>b. a < b \<and> b < ?n \<longrightarrow>
               \<not> contains (inset (- m - 1) (- m - 1) (r_rects res ! b)) dropRect)"
    have "snd ?c = DropAt (0 + a)"
    proof (rule cells_last_match [OF a])
      show "contains (inset (- m - 1) (- m - 1) (fst ?c ! a)) dropRect"
        using h res by simp
      show "\<forall>j. a < j \<and> j < ?n \<longrightarrow> \<not> contains (inset (- m - 1) (- m - 1) (fst ?c ! j)) dropRect"
        using h res by simp
    qed
    then show "r_dropIndex res = DropAt a" by (simp add: res)
  qed
  from len none some show ?thesis by (intro conjI)
qed

theorem arrange_dropIndex_witness:
  "opt_dropPos \<lparr>opt_count = Some 5, opt_addTab = False, opt_columns = None,
      opt_dropPos = Some (Point 200 50), opt_return_widthAndColumns = False\<rparr> = Some (Point 200 50) \<and>
   arrange_count (None :: nat list option) \<lparr>opt_count = Some 5, opt_addTab = False, opt_columns = None,
      opt_dropPos = Some (Point 200 50), opt_return_widthAndColumns = False\<rparr> = 5 \<and>
   length (r_rects (arrange (\<lambda>i::nat. 0) False None (Rect 0 0 600 300)
     \<lparr>opt_count = Some 5, opt_addTab = False, opt_columns = None,
      opt_dropPos = Some (Point 200 50), opt_return_widthAndColumns = False\<rparr>)) = 5 \<and>
   r_dropIndex (arrange (\<lambda>i::nat. 0) False None (Rect 0 0 600 300)
     \<lparr>opt_count = Some 5, opt_addTab = False, opt_columns = None,
      opt_dropPos = Some (Point 200 50), opt_return_widthAndColumns = False\<rparr>) = DropAt 1"
proof -
  let ?o = "\<lparr>opt_count = Some 5, opt_addTab = False, opt_columns = None,
      opt_dropPos = Some (Point 200 50), opt_return_widthAndColumns = False\<rparr>"
  have c: "arrange_count (None :: nat list option) ?o = 5"
    by (simp add: arrange_count_def)
  have h1: "opt_dropPos ?o = Some (Point 200 50)" by simp
  have h2: "\<not> opt_return_widthAndColumns ?o" by simp
  have h3: "arrange_count (None :: nat list option) ?o \<ge> 1" by (simp add: c)
  have r: "arrange (\<lambda>i::nat. 0) False None (Rect 0 0 600 300) ?o =
        Arranged [Rect 0 0 200 110, Rect 200 0 200 110, Rect 400 0 200 110,
                  Rect 0 110 200 110, Rect 200 110 200 110] (DropAt 1) (Some 3)"
    by code_simp
  from arrange_dropIndex [OF h1 h2 h3, of "\<lambda>i::nat. 0" False "Rect 0 0 600 300"]
  have "length (r_rects (arrange (\<lambda>i::nat. 0) False None (Rect 0 0 600 300) ?o)) = 5"
    by (simp add: c)
  with h1 c r show ?thesis by simp
qed

text \<open>
  Claim C6 as stated fails: with two cells in a 600 by 300 area and the drop position
  (1000, 1000), outside every cell however inflated, the drop index returned is
  \<open>false\<close>, not \<open>null\<close>.
\<close>

theorem arrange_dropIndex_counterexample:
  "arrange (\<lambda>i::nat. 0) False None (Rect 0 0 600 300)
     \<lparr>opt_count = Some 2, opt_addTab = False, opt_columns = None,
      opt_dropPos = Some (Point 1000 1000), opt_return_widthAndColumns = False\<rparr> =
     Arranged [Rect 0 0 600 110, Rect 0 110 600 110] DropFalse (Some 1) \<and>
   \<not> contains (inset (- 1) (- 1) (Rect 0 0 600 110)) (Rect 1000 1000 1 1) \<and>
   \<not> contains (inset (- 1) (- 1) (Rect 0 110 600 110)) (Rect 1000 1000 1 1) \<and>
   DropFalse \<noteq> DropNull"
  by code_simp

section \<open>Grid arrangement: six cells in a 600 by 300 area\<close>

lemma arrange_six_ltr:
  "arrange marginLeft False None (Rect 0 0 600 300)
     \<lparr>opt_count = Some 6, opt_addTab = False, opt_columns = None,
      opt_dropPos = None, opt_return_widthAndColumns = False\<rparr> =
   Arranged [Rect 0 0 200 110, Rect 200 0 200 110, Rect 400 0 200 110,
             Rect 0 110 200 110, Rect 200 110 200 110, Rect 400 110 200 110] DropFalse (Some 3)"
  by code_simp

lemma arrange_six_rtl:
  "arrange marginLeft True None (Rect 0 0 600 300)
     \<lparr>opt_count = Some 6, opt_addTab = False, opt_columns = None,
      opt_dropPos = None, opt_return_widthAndColumns = False\<rparr> =
   Arranged [Rect 400 0 200 110, Rect 200 0 200 110, Rect 0 0 200 110,
             Rect 400 110 200 110, Rect 200 110 200 110, Rect 0 110 200 110] DropFalse (Some 3)"
  by code_simp

text \<open>
  Claim C7. \<open>arrange\<close> with count 6, bounds (0, 0, 600, 300), no items and no fixed
  column count returns 3 columns, so that rows times columns is 6, and six rectangles,
  each inside the bounds and at least the minimum item size, whatever the layout direction.
\<close>

theorem arrange_six_in_600_by_300:
  fixes marginLeft :: "'i \<Rightarrow> int" and rtl :: bool
  defines "res \<equiv> arrange marginLeft rtl None (Rect 0 0 600 300)
     \<lparr>opt_count = Some 6, opt_addTab = False, opt_columns = None,
      opt_dropPos = None, opt_return_widthAndColumns = False\<rparr>"
  shows "r_columns res = Some 3 \<and>
         nat \<lceil>(6 :: rat) / of_nat (the (r_columns res))\<rceil> * the (r_columns res) \<ge> 6 \<and>
         length (r_rects res) = 6 \<and>
         list_all (contains (Rect 0 0 600 300)) (r_rects res) \<and>
         list_all minSized (r_rects res)"
proof (cases rtl)
  case True
  then have "res = Arranged [Rect 400 0 200 110, Rect 200 0 200 110, Rect 0 0 200 110,
             Rect 400 110 200 110, Rect 200 110 200 110, Rect 0 110 200 110] DropFalse (Some 3)"
    by (simp add: res_def arrange_six_rtl)
  then show ?thesis
    by (simp add: contains_def Rect_def rright_def rbottom_def minSized_def
        minItemWidth_def minItemHeight_def)
next
  case False
  then have "res = Arranged [Rect 0 0 200 110, Rect 200 0 200 110, Rect 400 0 200 110,
             Rect 0 110 200 110, Rect 200 110 200 110, Rect 400 110 200 110] DropFalse (Some 3)"
    by (simp add: res_def arrange_six_ltr)
  then show ?thesis
    by (simp add: contains_def Rect_def rright_def rbottom_def minSized_def
        minItemWidth_def minItemHeight_def)
qed

theorem arrange_six_in_600_by_300_witness:
  "r_columns (arrange (\<lambda>i::nat. 0) False None (Rect 0 0 600 300)
     \<lparr>opt_count = Some 6, opt_addTab = False, opt_columns = None,
      opt_dropPos = None, opt_return_widthAndColumns = False\<rparr>) = Some 3 \<and>
   length (r_rects (arrange (\<lambda>i::nat. 0) False None (Rect 0 0 600 300)
     \<lparr>opt_count = Some 6, opt_addTab = False, opt_columns = None,
      opt_dropPos = None, opt_return_widthAndColumns = False\<rparr>)) = 6"
  using arrange_six_in_600_by_300 [of "\<lambda>i::nat. 0" False]
  by simp

section \<open>Geometry facts\<close>


lemma equals_iff: "equals a b \<longleftrightarrow> a = b"
  by (cases a, cases b) (auto simp: equals_def)

lemma buffer_eq: "buffer = 7"
proof -
  have "\<lfloor>15 / 2 :: rat\<rfloor> = 7"
    by (simp add: floor_eq_iff)
  then show ?thesis
    by (simp add: buffer_def defaultGutter_def)
qed


section \<open>One push\<close>

lemma pushEach_not_pushed: "\<not> snd (pushEach b g bb bbc i d) \<Longrightarrow> fst (pushEach b g bb bbc i d) = d"
  by (auto simp: pushEach_def Let_def split: if_splits)

lemma pushEach_guard: "generation d \<le> g \<Longrightarrow> pushEach b g bb bbc i d = (d, False)"
  by (simp add: pushEach_def)

lemma pushEach_pushed:
  assumes "snd (pushEach b g bb bbc i d)"
  shows "i \<noteq> b" and "g < generation d"
    and "generation (fst (pushEach b g bb bbc i d)) = g + 1"
    and "pusher (fst (pushEach b g bb bbc i d)) = Some b"
    and "intersects (inset (- buffer) (- buffer) (dbounds d)) bb"
  using assms by (auto simp: pushEach_def Let_def split: if_splits)

lemma pushEach_frame:
  "startBounds (fst (pushEach b g bb bbc i d)) = startBounds d"
  "rwidth (dbounds (fst (pushEach b g bb bbc i d))) = rwidth (dbounds d)"
  "rheight (dbounds (fst (pushEach b g bb bbc i d))) = rheight (dbounds d)"
  by (auto simp: pushEach_def Let_def offset_def split: if_splits)

lemma pushEach_separates:
  assumes "snd (pushEach b g bb bbc i d)"
  shows "\<not> intersects (inset (- buffer) (- buffer) (dbounds (fst (pushEach b g bb bbc i d)))) bb"
  using assms
  by (auto simp: pushEach_def Let_def offset_def Point_def inset_def Rect_def intersects_def
      rright_def rbottom_def split: if_splits)

text \<open>
  Claim C5. When a base of generation \<open>n\<close> pushes an overlapping item of greater
  generation, the item moves along one axis only: vertically when the centres of the
  inflated boxes are farther apart vertically than horizontally, horizontally otherwise;
  it moves away from the base's centre, by the amount that puts the facing edges of the
  two inflated boxes on one line; its size is unchanged; it gets generation \<open>n + 1\<close>,
  the base as its pusher, and is queued.
\<close>

theorem pushEach_offset:
  fixes baseBounds :: rect and n :: nat and data :: pushAwayData and baseItem item :: nat
  defines "bb \<equiv> inset (- buffer) (- buffer) baseBounds"
  defines "box \<equiv> inset (- buffer) (- buffer) (dbounds data)"
  defines "r \<equiv> pushEach baseItem (enat n) bb (center bb) item data"
  defines "box' \<equiv> inset (- buffer) (- buffer) (dbounds (fst r))"
  assumes "item \<noteq> baseItem" and "generation data > enat n" and "intersects box bb"
  shows "snd r \<and> generation (fst r) = enat (n + 1) \<and> pusher (fst r) = Some baseItem \<and>
         rwidth box' = rwidth box \<and> rheight box' = rheight box \<and>
         (\<bar>px (center box) - px (center bb)\<bar> < \<bar>py (center box) - py (center bb)\<bar> \<longrightarrow>
            rleft box' = rleft box \<and>
            (py (center box) > py (center bb) \<longrightarrow> rtop box' > rtop box \<and> rtop box' = rbottom bb) \<and>
            (py (center box) < py (center bb) \<longrightarrow> rtop box' < rtop box \<and> rbottom box' = rtop bb)) \<and>
         (\<bar>px (center box) - px (center bb)\<bar> > \<bar>py (center box) - py (center bb)\<bar> \<longrightarrow>
            rtop box' = rtop box \<and>
            (px (center box) > px (center bb) \<longrightarrow> rleft box' > rleft box \<and> rleft box' = rright bb) \<and>
            (px (center box) < px (center bb) \<longrightarrow> rleft box' < rleft box \<and> rright box' = rleft bb)) \<and>
         (\<bar>px (center box) - px (center bb)\<bar> = \<bar>py (center box) - py (center bb)\<bar> \<longrightarrow>
            rtop box' = rtop box \<and>
            (px (center box) > px (center bb) \<longrightarrow> rleft box' = rright bb) \<and>
            (px (center box) \<le> px (center bb) \<longrightarrow> rright box' = rleft bb)) \<and>
         \<not> intersects box' bb"
proof -
  have g: "\<not> generation data \<le> enat n"
    using assms(6) by simp
  have i: "intersects (inset (- buffer) (- buffer) (dbounds data)) bb"
    using assms(7) by (simp add: box_def)
  have edges: "rbottom bb > rtop box" "rbottom box > rtop bb" "rright bb > rleft box" "rright box > rleft bb"
    using assms(7) by (auto simp: intersects_def)
  show ?thesis
  proof (cases "\<bar>px (center box) - px (center bb)\<bar> < \<bar>py (center box) - py (center bb)\<bar>")
    case True
    then have ne: "py (center box) \<noteq> py (center bb)" by auto
    show ?thesis
    proof (cases "py (center box) > py (center bb)")
      case up: True
      have r_eq: "fst r = data\<lparr>dbounds := offset (Point 0 (rbottom bb - rtop box)) (dbounds data),
                      generation := enat n + 1, pusher := Some baseItem\<rparr>" "snd r"
        using assms(5) g i True up by (simp_all add: r_def pushEach_def Let_def box_def)
      from True up edges show ?thesis
        unfolding box'_def r_eq
        by (simp add: box_def offset_def Point_def inset_def Rect_def intersects_def
            rright_def rbottom_def one_enat_def r_eq(2))
    next
      case down: False
      have r_eq: "fst r = data\<lparr>dbounds := offset (Point 0 (rtop bb - rbottom box)) (dbounds data),
                      generation := enat n + 1, pusher := Some baseItem\<rparr>" "snd r"
        using assms(5) g i True down by (simp_all add: r_def pushEach_def Let_def box_def)
      from True down ne edges show ?thesis
        unfolding box'_def r_eq
        by (simp add: box_def offset_def Point_def inset_def Rect_def intersects_def
            rright_def rbottom_def one_enat_def r_eq(2))
    qed
  next
    case False
    show ?thesis
    proof (cases "px (center box) > px (center bb)")
      case right: True
      have r_eq: "fst r = data\<lparr>dbounds := offset (Point (rright bb - rleft box) 0) (dbounds data),
                      generation := enat n + 1, pusher := Some baseItem\<rparr>" "snd r"
        using assms(5) g i False right by (simp_all add: r_def pushEach_def Let_def box_def)
      from False right edges show ?thesis
        unfolding box'_def r_eq
        by (simp add: box_def offset_def Point_def inset_def Rect_def intersects_def
            rright_def rbottom_def one_enat_def r_eq(2))
    next
      case left: False
      have r_eq: "fst r = data\<lparr>dbounds := offset (Point (rleft bb - rright box) 0) (dbounds data),
                      generation := enat n + 1, pusher := Some baseItem\<rparr>" "snd r"
        using assms(5) g i False left by (simp_all add: r_def pushEach_def Let_def box_def)
      from False left edges show ?thesis
        unfolding box'_def r_eq
        by (simp add: box_def offset_def Point_def inset_def Rect_def intersects_def
            rright_def rbottom_def one_enat_def r_eq(2))
    qed
  qed
qed

theorem pushEach_offset_witness:
  "(1::nat) \<noteq> 0 \<and> (\<infinity>::enat) > enat 0 \<and>
   intersects (inset (- buffer) (- buffer) (Rect 250 100 400 200))
              (inset (- buffer) (- buffer) (Rect 100 100 200 200)) \<and>
   pushEach 0 (enat 0) (inset (- buffer) (- buffer) (Rect 100 100 200 200))
     (center (inset (- buffer) (- buffer) (Rect 100 100 200 200))) 1
     \<lparr>dbounds = Rect 250 100 400 200, startBounds = Rect 250 100 400 200,
      generation = \<infinity>, pusher = None\<rparr> =
   (\<lparr>dbounds = Rect 314 100 400 200, startBounds = Rect 250 100 400 200,
     generation = 1, pusher = Some 0\<rparr>, True)"
  using pushEach_offset [where baseBounds = "Rect 100 100 200 200" and n = 0 and baseItem = 0
      and item = 1 and data = "\<lparr>dbounds = Rect 250 100 400 200, startBounds = Rect 250 100 400 200,
      generation = \<infinity>, pusher = None\<rparr>"]
  by (simp add: pushEach_def Let_def buffer_eq inset_def Rect_def intersects_def rright_def
      rbottom_def center_def Point_def offset_def one_enat_def zero_enat_def)

section \<open>One round of pushes\<close>

lemma pushEachFrom_length: "length (fst (pushEachFrom b g bb bbc i ds)) = length ds"
  by (induction ds arbitrary: i) (simp_all add: Let_def)

lemma pushEachFrom_nth:
  "k < length ds \<Longrightarrow>
   fst (pushEachFrom b g bb bbc i ds) ! k = fst (pushEach b g bb bbc (i + k) (ds ! k))"
proof (induction ds arbitrary: i k)
  case Nil
  then show ?case by simp
next
  case (Cons d ds)
  show ?case
  proof (cases k)
    case 0
    then show ?thesis by (simp add: Let_def)
  next
    case (Suc k')
    with Cons.prems have "k' < length ds" by simp
    from Cons.IH [OF this, of "Suc i"] Suc show ?thesis by (simp add: Let_def)
  qed
qed

lemma pushEachFrom_mem:
  "j \<in> set (snd (pushEachFrom b g bb bbc i ds)) \<longleftrightarrow>
   i \<le> j \<and> j - i < length ds \<and> snd (pushEach b g bb bbc j (ds ! (j - i)))"
proof (induction ds arbitrary: i)
  case Nil
  then show ?case by simp
next
  case (Cons d ds)
  have split: "j \<in> set (snd (pushEachFrom b g bb bbc i (d # ds))) \<longleftrightarrow>
      (snd (pushEach b g bb bbc i d) \<and> j = i) \<or> j \<in> set (snd (pushEachFrom b g bb bbc (Suc i) ds))"
    by (auto simp: Let_def)
  show ?case
  proof (cases "j = i")
    case True
    then show ?thesis unfolding split Cons.IH by auto
  next
    case False
    show ?thesis
    proof (cases "i < j")
      case True
      then have "j - i = Suc (j - Suc i)" by simp
      with True False show ?thesis unfolding split Cons.IH by auto
    next
      case False
      with \<open>j \<noteq> i\<close> show ?thesis unfolding split Cons.IH by auto
    qed
  qed
qed

lemma pushEachFrom_snd_length: "length (snd (pushEachFrom b g bb bbc i ds)) \<le> length ds"
proof (induction ds arbitrary: i)
  case Nil
  show ?case by simp
next
  case (Cons d ds)
  from Cons.IH [of "Suc i"] show ?case by (simp add: Let_def)
qed

lemma pushOne_length: "length (fst (pushOne b ds)) = length ds"
  by (simp add: pushOne_def Let_def pushEachFrom_length)

lemma pushOne_nth:
  "k < length ds \<Longrightarrow>
   fst (pushOne b ds) ! k =
     fst (pushEach b (generation (ds ! b)) (inset (- buffer) (- buffer) (dbounds (ds ! b)))
            (center (inset (- buffer) (- buffer) (dbounds (ds ! b)))) k (ds ! k))"
  by (simp add: pushOne_def Let_def pushEachFrom_nth)

lemma pushOne_mem:
  "j \<in> set (snd (pushOne b ds)) \<longleftrightarrow>
   j < length ds \<and>
   snd (pushEach b (generation (ds ! b)) (inset (- buffer) (- buffer) (dbounds (ds ! b)))
            (center (inset (- buffer) (- buffer) (dbounds (ds ! b)))) j (ds ! j))"
  by (simp add: pushOne_def Let_def pushEachFrom_mem)

lemma pushOne_snd_length: "length (snd (pushOne b ds)) \<le> length ds"
  by (simp add: pushOne_def Let_def pushEachFrom_snd_length)

lemma pushOne_framed:
  assumes "framed its ds"
  shows "framed its (fst (pushOne b ds))"
proof -
  from assms have len: "length ds = length its" by (simp add: framed_def)
  show ?thesis
    unfolding framed_def
  proof (intro conjI allI impI)
    show "length (fst (pushOne b ds)) = length its"
      by (simp add: pushOne_length len)
  next
    fix i assume i: "i < length its"
    then have k: "i < length ds" by (simp add: len)
    from assms i have old: "startBounds (ds ! i) = bounds (its ! i)"
      "rwidth (dbounds (ds ! i)) = rwidth (bounds (its ! i))"
      "rheight (dbounds (ds ! i)) = rheight (bounds (its ! i))"
      by (simp_all add: framed_def)
    show "startBounds (fst (pushOne b ds) ! i) = bounds (its ! i)"
      by (simp add: pushOne_nth [OF k] pushEach_frame old)
    show "rwidth (dbounds (fst (pushOne b ds) ! i)) = rwidth (bounds (its ! i))"
      by (simp add: pushOne_nth [OF k] pushEach_frame old)
    show "rheight (dbounds (fst (pushOne b ds) ! i)) = rheight (bounds (its ! i))"
      by (simp add: pushOne_nth [OF k] pushEach_frame old)
  qed
qed

section \<open>Generations are bounded by the number of items\<close>

lemma enat_plus_one: "enat n + 1 = enat (Suc n)"
  by (simp add: one_enat_def)

lemma generation_chain:
  assumes "bfs_inv ds q"
  shows "i < length ds \<Longrightarrow> generation (ds ! i) = enat m \<Longrightarrow>
         \<forall>k \<le> m. \<exists>j < length ds. generation (ds ! j) = enat k"
proof (induction m arbitrary: i)
  case 0
  then show ?case by auto
next
  case (Suc m)
  from assms Suc.prems obtain p where p: "pusher (ds ! i) = Some p"
    unfolding bfs_inv_def by (metis not_None_eq)
  with assms Suc.prems(1) have pp: "p < length ds" "generation (ds ! p) \<noteq> \<infinity>"
    "generation (ds ! i) = generation (ds ! p) + 1"
    unfolding bfs_inv_def by blast+
  from pp(2) obtain m' where m': "generation (ds ! p) = enat m'" by auto
  with pp(3) Suc.prems(2) have "m' = m" by (simp add: enat_plus_one)
  with m' have "generation (ds ! p) = enat m" by simp
  from Suc.IH [OF pp(1) this] have low: "\<forall>k \<le> m. \<exists>j < length ds. generation (ds ! j) = enat k" .
  show ?case
  proof (intro allI impI)
    fix k assume "k \<le> Suc m"
    then consider "k \<le> m" | "k = Suc m" by linarith
    then show "\<exists>j < length ds. generation (ds ! j) = enat k"
    proof cases
      case 1
      with low show ?thesis by blast
    next
      case 2
      with Suc.prems show ?thesis by blast
    qed
  qed
qed

lemma generation_bound:
  assumes "bfs_inv ds q" and "i < length ds" and "generation (ds ! i) = enat m"
  shows "m < length ds"
proof -
  from generation_chain [OF assms]
  have "enat ` {..m} \<subseteq> (\<lambda>j. generation (ds ! j)) ` {..<length ds}"
    by (auto simp: image_iff) (metis lessThan_iff)
  then have "card (enat ` {..m}) \<le> card ((\<lambda>j. generation (ds ! j)) ` {..<length ds})"
    by (intro card_mono) auto
  also have "\<dots> \<le> card {..<length ds}"
    by (rule card_image_le) simp
  finally have "card (enat ` {..m}) \<le> length ds" by simp
  moreover have "card (enat ` {..m}) = Suc m"
    by (simp add: card_image inj_on_def)
  ultimately show ?thesis by simp
qed

section \<open>The propagation loop keeps its invariant and ends\<close>

lemma sorted_map_const: "\<forall>x \<in> set xs. f x = c \<Longrightarrow> sorted (map f xs)"
  by (induction xs) auto

lemma sum_list_map_const: "\<forall>x \<in> set xs. f x = (c::nat) \<Longrightarrow> sum_list (map f xs) = length xs * c"
  by (induction xs) auto

lemma bfs_step:
  assumes inv: "bfs_inv ds (b # rest)"
  shows "bfs_inv (fst (pushOne b ds)) (rest @ snd (pushOne b ds))"
    and "queueWeight (fst (pushOne b ds)) (rest @ snd (pushOne b ds)) < queueWeight ds (b # rest)"
proof -
  define N where "N = length ds"
  define ds' where "ds' = fst (pushOne b ds)"
  define new where "new = snd (pushOne b ds)"
  define bb where "bb = inset (- buffer) (- buffer) (dbounds (ds ! b))"
  define bbc where "bbc = center bb"
  from inv have bN: "b < N" and bfin: "generation (ds ! b) \<noteq> \<infinity>"
    by (simp_all add: bfs_inv_def N_def)
  then obtain n where gb: "generation (ds ! b) = enat n" by auto
  have len: "length ds' = N"
    by (simp add: ds'_def N_def pushOne_length)
  have nth: "ds' ! k = fst (pushEach b (enat n) bb bbc k (ds ! k))" if "k < N" for k
    using that by (simp add: ds'_def N_def pushOne_nth gb bb_def bbc_def)
  have mem: "k \<in> set new \<longleftrightarrow> k < N \<and> snd (pushEach b (enat n) bb bbc k (ds ! k))" for k
    by (simp add: new_def N_def pushOne_mem gb bb_def bbc_def)
  have newN: "k < N" if "k \<in> set new" for k
    using that mem by blast
  have pushed: "k \<noteq> b" "generation (ds' ! k) = enat (Suc n)" "pusher (ds' ! k) = Some b"
    "enat n < generation (ds ! k)"
    "\<not> intersects (inset (- buffer) (- buffer) (dbounds (ds' ! k))) bb"
    if "k \<in> set new" for k
  proof -
    from that mem have k: "k < N" and s: "snd (pushEach b (enat n) bb bbc k (ds ! k))" by blast+
    show "k \<noteq> b" using pushEach_pushed(1) [OF s] .
    show "generation (ds' ! k) = enat (Suc n)"
      using pushEach_pushed(3) [OF s] by (simp add: nth [OF k] enat_plus_one)
    show "pusher (ds' ! k) = Some b"
      using pushEach_pushed(4) [OF s] by (simp add: nth [OF k])
    show "enat n < generation (ds ! k)" using pushEach_pushed(2) [OF s] .
    show "\<not> intersects (inset (- buffer) (- buffer) (dbounds (ds' ! k))) bb"
      using pushEach_separates [OF s] by (simp add: nth [OF k])
  qed
  have unpushed: "ds' ! k = ds ! k" if "k < N" "k \<notin> set new" for k
  proof -
    from that mem have "\<not> snd (pushEach b (enat n) bb bbc k (ds ! k))" by blast
    then show ?thesis by (simp add: nth [OF that(1)] pushEach_not_pushed)
  qed
  have bound: "generation (ds ! i) \<le> enat (Suc n)" if "i < N" "generation (ds ! i) \<noteq> \<infinity>" for i
  proof -
    from inv that have "generation (ds ! i) \<le> generation (ds ! b) + 1"
      unfolding bfs_inv_def N_def by simp
    then show ?thesis by (simp add: gb enat_plus_one)
  qed
  have low: "ds' ! k = ds ! k" if "k < N" "generation (ds ! k) \<le> enat n" for k
    using that by (simp add: nth pushEach_guard)
  have base_same: "ds' ! b = ds ! b"
    using low [OF bN] gb by simp
  have gen_fin: "generation (ds' ! k) = generation (ds ! k)"
    if kN: "k < N" and fin: "generation (ds ! k) \<noteq> \<infinity>" for k
  proof (cases "k \<in> set new")
    case True
    from fin obtain g where g: "generation (ds ! k) = enat g" by auto
    with bound [OF kN fin] pushed(4) [OF True] have "g = Suc n" by simp
    with g pushed(2) [OF True] show ?thesis by simp
  next
    case False
    with kN show ?thesis by (simp add: unpushed)
  qed
  have bound': "generation (ds' ! i) \<le> enat (Suc n)" if "i < N" "generation (ds' ! i) \<noteq> \<infinity>" for i
  proof (cases "i \<in> set new")
    case True
    then show ?thesis by (simp add: pushed(2))
  next
    case False
    with that show ?thesis by (simp add: unpushed bound)
  qed
  have rest_old: "q < N" "generation (ds ! q) \<noteq> \<infinity>" "enat n \<le> generation (ds ! q)" if "q \<in> set rest" for q
  proof -
    from inv that show "q < N" "generation (ds ! q) \<noteq> \<infinity>"
      by (simp_all add: bfs_inv_def N_def)
    from inv have "sorted (generation (ds ! b) # map (\<lambda>b. generation (ds ! b)) rest)"
      by (simp add: bfs_inv_def)
    with that show "enat n \<le> generation (ds ! q)"
      by (auto simp: gb)
  qed
  have rest_same: "generation (ds' ! q) = generation (ds ! q)" if "q \<in> set rest" for q
    using rest_old(1,2) [OF that] by (rule gen_fin)
  have p1: "\<forall>q \<in> set (rest @ new). q < length ds' \<and> generation (ds' ! q) \<noteq> \<infinity>"
  proof
    fix q assume "q \<in> set (rest @ new)"
    then consider "q \<in> set rest" | "q \<in> set new" by auto
    then show "q < length ds' \<and> generation (ds' ! q) \<noteq> \<infinity>"
    proof cases
      case 1
      then show ?thesis by (simp add: len rest_old rest_same)
    next
      case 2
      then show ?thesis by (simp add: len newN pushed(2))
    qed
  qed
  have p2: "sorted (map (\<lambda>q. generation (ds' ! q)) (rest @ new))"
  proof -
    have eq: "map (\<lambda>q. generation (ds' ! q)) rest = map (\<lambda>q. generation (ds ! q)) rest"
      by (rule map_cong) (simp_all add: rest_same)
    from inv have "sorted (map (\<lambda>q. generation (ds ! q)) rest)"
      by (simp add: bfs_inv_def)
    then have s1: "sorted (map (\<lambda>q. generation (ds' ! q)) rest)"
      by (simp only: eq)
    have s2: "sorted (map (\<lambda>q. generation (ds' ! q)) new)"
      by (rule sorted_map_const [where c = "enat (Suc n)"]) (simp add: pushed(2))
    have s3: "\<forall>x \<in> set rest. \<forall>y \<in> set new. generation (ds' ! x) \<le> generation (ds' ! y)"
    proof (intro ballI)
      fix x y assume x: "x \<in> set rest" and y: "y \<in> set new"
      have "generation (ds' ! x) \<le> enat (Suc n)"
        using rest_old [OF x] by (simp add: rest_same [OF x] bound)
      then show "generation (ds' ! x) \<le> generation (ds' ! y)"
        by (simp add: pushed(2) [OF y])
    qed
    from s1 s2 s3 show ?thesis
      by (simp add: sorted_append)
  qed
  have p3: "\<forall>q \<in> set (rest @ new). \<forall>i < length ds'.
        generation (ds' ! i) \<noteq> \<infinity> \<longrightarrow> generation (ds' ! i) \<le> generation (ds' ! q) + 1"
  proof (intro ballI allI impI)
    fix q i assume q: "q \<in> set (rest @ new)" and i: "i < length ds'" and f: "generation (ds' ! i) \<noteq> \<infinity>"
    from i f have le: "generation (ds' ! i) \<le> enat (Suc n)"
      by (simp add: len bound')
    from q consider "q \<in> set rest" | "q \<in> set new" by auto
    then have "enat n \<le> generation (ds' ! q)"
    proof cases
      case 1
      then show ?thesis by (simp add: rest_same rest_old)
    next
      case 2
      then show ?thesis by (simp add: pushed(2))
    qed
    then have "enat (Suc n) \<le> generation (ds' ! q) + 1"
      by (metis enat_plus_one add_right_mono)
    with le show "generation (ds' ! i) \<le> generation (ds' ! q) + 1"
      by (rule order_trans)
  qed
  have p4: "\<forall>i < length ds'. \<forall>p. pusher (ds' ! i) = Some p \<longrightarrow>
        p < length ds' \<and> generation (ds' ! p) \<noteq> \<infinity> \<and>
        generation (ds' ! i) = generation (ds' ! p) + 1 \<and>
        \<not> intersects (inset (- buffer) (- buffer) (dbounds (ds' ! i)))
                      (inset (- buffer) (- buffer) (dbounds (ds' ! p)))"
  proof (intro allI impI)
    fix i p assume i: "i < length ds'" and pp: "pusher (ds' ! i) = Some p"
    from i have iN: "i < N" by (simp add: len)
    show "p < length ds' \<and> generation (ds' ! p) \<noteq> \<infinity> \<and>
        generation (ds' ! i) = generation (ds' ! p) + 1 \<and>
        \<not> intersects (inset (- buffer) (- buffer) (dbounds (ds' ! i)))
                      (inset (- buffer) (- buffer) (dbounds (ds' ! p)))"
    proof (cases "i \<in> set new")
      case True
      with pp have "p = b" by (simp add: pushed(3))
      with True show ?thesis
        using pushed(5) [OF True]
        by (simp add: len bN base_same gb pushed(2) enat_plus_one bb_def)
    next
      case False
      with iN have same: "ds' ! i = ds ! i" by (simp add: unpushed)
      with pp have old_p: "pusher (ds ! i) = Some p" by simp
      with inv iN have o: "p < N" "generation (ds ! p) \<noteq> \<infinity>"
        "generation (ds ! i) = generation (ds ! p) + 1"
        "\<not> intersects (inset (- buffer) (- buffer) (dbounds (ds ! i)))
                      (inset (- buffer) (- buffer) (dbounds (ds ! p)))"
        unfolding bfs_inv_def N_def by blast+
      from o(2) obtain m where m: "generation (ds ! p) = enat m" by auto
      with o(3) have gi: "generation (ds ! i) = enat (Suc m)" by (simp add: enat_plus_one)
      with bound [OF iN] have "m \<le> n" by simp
      with m have "generation (ds ! p) \<le> enat n" by simp
      with o(1) have "ds' ! p = ds ! p" by (rule low)
      with same o show ?thesis by (simp add: len)
    qed
  qed
  have p5: "\<forall>i < length ds'. \<forall>m. generation (ds' ! i) = enat (Suc m) \<longrightarrow> pusher (ds' ! i) \<noteq> None"
  proof (intro allI impI)
    fix i m assume i: "i < length ds'" and g: "generation (ds' ! i) = enat (Suc m)"
    from i have iN: "i < N" by (simp add: len)
    show "pusher (ds' ! i) \<noteq> None"
    proof (cases "i \<in> set new")
      case True
      then show ?thesis by (simp add: pushed(3))
    next
      case False
      with iN have same: "ds' ! i = ds ! i" by (simp add: unpushed)
      with g inv iN show ?thesis
        unfolding bfs_inv_def N_def by simp
    qed
  qed
  from p1 p2 p3 p4 p5 have inv': "bfs_inv ds' (rest @ new)"
    unfolding bfs_inv_def by (intro conjI)
  then show "bfs_inv (fst (pushOne b ds)) (rest @ snd (pushOne b ds))"
    by (simp add: ds'_def new_def)
  define W :: "pushAwayData list \<Rightarrow> nat \<Rightarrow> nat"
    where "W = (\<lambda>d q. Suc N ^ (N - the_enat (generation (d ! q))))"
  have w_rest: "sum_list (map (W ds') rest) = sum_list (map (W ds) rest)"
  proof -
    have "map (W ds') rest = map (W ds) rest"
      by (rule map_cong) (simp_all add: W_def rest_same)
    then show ?thesis by (simp only:)
  qed
  have w_new: "sum_list (map (W ds') new) = length new * Suc N ^ (N - Suc n)"
    by (rule sum_list_map_const) (simp add: W_def pushed(2))
  have w_b: "W ds b = Suc N ^ (N - n)"
    by (simp add: W_def gb)
  have lhs: "queueWeight ds' (rest @ new) = sum_list (map (W ds) rest) + length new * Suc N ^ (N - Suc n)"
    using w_rest w_new by (simp add: queueWeight_def len W_def)
  have rhs: "queueWeight ds (b # rest) = Suc N ^ (N - n) + sum_list (map (W ds) rest)"
    using w_b by (simp add: queueWeight_def W_def N_def)
  have "length new * Suc N ^ (N - Suc n) < Suc N ^ (N - n)"
  proof (cases "new = []")
    case True
    then show ?thesis by simp
  next
    case False
    then obtain k where k: "k \<in> set new" by (cases new) auto
    then have "k < length ds'" "generation (ds' ! k) = enat (Suc n)"
      by (simp_all add: len newN pushed(2))
    with inv' have "Suc n < length ds'" by (rule generation_bound)
    then have "N - n = Suc (N - Suc n)" by (simp add: len)
    then have "Suc N ^ (N - n) = Suc N * Suc N ^ (N - Suc n)" by simp
    moreover have "length new < Suc N"
      using pushOne_snd_length [of b ds] by (simp add: new_def N_def)
    moreover have "0 < Suc N ^ (N - Suc n)" by simp
    ultimately show ?thesis by (metis mult_less_mono1)
  qed
  with lhs rhs have "queueWeight ds' (rest @ new) < queueWeight ds (b # rest)" by simp
  then show "queueWeight (fst (pushOne b ds)) (rest @ snd (pushOne b ds)) < queueWeight ds (b # rest)"
    by (simp add: ds'_def new_def)
qed

lemma pushLoop_returns:
  assumes "bfs_inv ds q" and "I ds"
    and step: "\<And>d b rest. bfs_inv d (b # rest) \<Longrightarrow> I d \<Longrightarrow> I (fst (pushOne b d))"
  shows "\<exists>r. pushLoop ds q = Some r \<and> bfs_inv r [] \<and> I r"
  using assms(1,2)
proof (induction "queueWeight ds q" arbitrary: ds q rule: less_induct)
  case less
  show ?case
  proof (cases q)
    case Nil
    have "pushLoop ds [] = Some ds"
      by (subst pushLoop.simps) simp
    with less.prems Nil show ?thesis by simp
  next
    case (Cons b rest)
    have unf: "pushLoop ds (b # rest) = pushLoop (fst (pushOne b ds)) (rest @ snd (pushOne b ds))"
      by (subst pushLoop.simps) simp
    from less.prems(1) Cons have inv: "bfs_inv ds (b # rest)" by simp
    have "\<exists>r. pushLoop (fst (pushOne b ds)) (rest @ snd (pushOne b ds)) = Some r \<and> bfs_inv r [] \<and> I r"
    proof (rule less.hyps)
      show "queueWeight (fst (pushOne b ds)) (rest @ snd (pushOne b ds)) < queueWeight ds q"
        using bfs_step(2) [OF inv] Cons by simp
      show "bfs_inv (fst (pushOne b ds)) (rest @ snd (pushOne b ds))"
        using bfs_step(1) [OF inv] .
      show "I (fst (pushOne b ds))"
        using inv less.prems(2) by (rule step)
    qed
    with unf Cons show ?thesis by simp
  qed
qed

lemma seeded_nth:
  assumes "i < length its"
  shows "seeded its this ! i =
         \<lparr>dbounds = bounds (its ! i), startBounds = bounds (its ! i),
          generation = (if i = this then 0 else \<infinity>), pusher = None\<rparr>"
  using assms by (simp add: seeded_def Let_def pushAway_setupPushAwayData_def nth_list_update)

lemma seeded_length: "length (seeded its this) = length its"
  by (simp add: seeded_def Let_def)

lemma seeded_inv:
  assumes "this < length its"
  shows "bfs_inv (seeded its this) [this]"
  unfolding bfs_inv_def
  using assms by (auto simp: seeded_length seeded_nth zero_enat_def one_enat_def)

lemma seeded_framed: "framed its (seeded its this)"
  by (simp add: framed_def seeded_length seeded_nth)

lemma propagate_returns:
  assumes "this < length its"
  shows "\<exists>datas. propagate its this = Some datas \<and> bfs_inv datas [] \<and>
           (framed its datas \<and> generation (datas ! this) = 0)"
  unfolding propagate_def
  using seeded_inv [OF assms]
proof (rule pushLoop_returns)
  show "framed its (seeded its this) \<and> generation (seeded its this ! this) = 0"
    using assms by (simp add: seeded_framed seeded_nth)
next
  fix d b rest
  assume inv: "bfs_inv d (b # rest)" and f: "framed its d \<and> generation (d ! this) = 0"
  from f assms have t: "this < length d" by (simp add: framed_def)
  from f have "generation (d ! this) \<le> generation (d ! b)" by simp
  then have "fst (pushOne b d) ! this = d ! this"
    by (simp add: pushOne_nth [OF t] pushEach_guard)
  with f show "framed its (fst (pushOne b d)) \<and> generation (fst (pushOne b d) ! this) = 0"
    by (simp add: pushOne_framed)
qed

section \<open>The squish step returns and respects the minimum size\<close>

lemma calcValidSize_minSized:
  "minSized (b\<lparr>rwidth := px (calcValidSize (Point w h)), rheight := py (calcValidSize (Point w h))\<rparr>)"
  by (simp add: minSized_def calcValidSize_def Point_def)

lemma squished_refl: "squished ds ds"
  by (simp add: squished_def)

lemma squished_trans:
  assumes "squished a b" and "squished b c"
  shows "squished a c"
  unfolding squished_def
proof (intro conjI allI impI)
  show "length c = length a"
    using assms by (simp add: squished_def)
next
  fix j assume j: "j < length a"
  with assms(1) have ab: "generation (b ! j) = generation (a ! j)" "pusher (b ! j) = pusher (a ! j)"
    "startBounds (b ! j) = startBounds (a ! j)"
    "dbounds (b ! j) = dbounds (a ! j) \<or> minSized (dbounds (b ! j))"
    by (simp_all add: squished_def)
  from assms(1) j have "j < length b" by (simp add: squished_def)
  with assms(2) have bc: "generation (c ! j) = generation (b ! j)" "pusher (c ! j) = pusher (b ! j)"
    "startBounds (c ! j) = startBounds (b ! j)"
    "dbounds (c ! j) = dbounds (b ! j) \<or> minSized (dbounds (c ! j))"
    by (simp_all add: squished_def)
  show "generation (c ! j) = generation (a ! j)" by (simp add: ab bc)
  show "pusher (c ! j) = pusher (a ! j)" by (simp add: ab bc)
  show "startBounds (c ! j) = startBounds (a ! j)" by (simp add: ab bc)
  from ab(4) bc(4) show "dbounds (c ! j) = dbounds (a ! j) \<or> minSized (dbounds (c ! j))"
    by auto
qed

lemma squished_chain_inv: "squished a b \<Longrightarrow> chain_inv a \<Longrightarrow> chain_inv b"
  by (simp add: squished_def chain_inv_def)

lemma squished_update:
  assumes "i < length ds" and "minSized b"
  shows "squished ds (ds[i := (ds ! i)\<lparr>dbounds := b\<rparr>])"
  using assms by (auto simp: squished_def nth_list_update)

lemma bfs_inv_chain_inv: "bfs_inv ds q \<Longrightarrow> chain_inv ds"
  by (simp add: bfs_inv_def chain_inv_def)

lemma squish_apply_unfold_zero:
  "generation (ds ! i) = 0 \<Longrightarrow> squish_apply ds i ps ps2 ss = Some ds"
  by (subst squish_apply.simps) simp

lemma squish_apply_returns_fin:
  "chain_inv ds \<Longrightarrow> i < length ds \<Longrightarrow> generation (ds ! i) = enat n \<Longrightarrow>
   \<exists>r. squish_apply ds i ps ps2 ss = Some r \<and> squished ds r"
proof (induction n arbitrary: ds i ps)
  case 0
  then have "squish_apply ds i ps ps2 ss = Some ds"
    by (simp add: squish_apply_unfold_zero zero_enat_def)
  then show ?case by (simp add: squished_refl)
next
  case (Suc n)
  let ?b = "dbounds (ds ! i)"
  let ?b1 = "?b\<lparr>rwidth := rwidth ?b - px ss, rheight := rheight ?b - py ss,
                rleft := rleft ?b + px ps, rtop := rtop ?b + py ps\<rparr>"
  let ?v = "calcValidSize (Point (rwidth ?b1) (rheight ?b1))"
  let ?b2 = "?b1\<lparr>rwidth := px ?v, rheight := py ?v\<rparr>"
  let ?ds1 = "ds[i := (ds ! i)\<lparr>dbounds := ?b2\<rparr>]"
  have nz: "generation (ds ! i) \<noteq> 0"
    using Suc.prems(3) by (simp add: zero_enat_def)
  have sq1: "squished ds ?ds1"
    using Suc.prems(2) by (rule squished_update) (rule calcValidSize_minSized)
  show ?case
  proof (cases "pusher (ds ! i)")
    case None
    have "squish_apply ds i ps ps2 ss = Some ?ds1"
      using nz None by (subst squish_apply.simps) (simp add: Let_def)
    with sq1 show ?thesis by simp
  next
    case (Some p)
    have unf: "squish_apply ds i ps ps2 ss =
        squish_apply ?ds1 p (Point (px ps + px ps2) (py ps + py ps2)) ps2 ss"
      using nz Some by (subst squish_apply.simps) (simp add: Let_def)
    from Suc.prems(1,2) Some have p: "p < length ds" "generation (ds ! p) \<noteq> \<infinity>"
      "generation (ds ! i) = generation (ds ! p) + 1"
      unfolding chain_inv_def by blast+
    from p(2) obtain m where m: "generation (ds ! p) = enat m" by auto
    with p(3) Suc.prems(3) have "m = n" by (simp add: enat_plus_one)
    with m have gp: "generation (ds ! p) = enat n" by simp
    have c1: "chain_inv ?ds1"
      using sq1 Suc.prems(1) by (rule squished_chain_inv)
    have p1: "p < length ?ds1" using p(1) by simp
    have g1: "generation (?ds1 ! p) = enat n"
      using sq1 p(1) gp by (simp add: squished_def)
    from Suc.IH [OF c1 p1 g1]
    obtain r where r: "squish_apply ?ds1 p (Point (px ps + px ps2) (py ps + py ps2)) ps2 ss = Some r"
      "squished ?ds1 r" by blast
    from sq1 r(2) have "squished ds r" by (rule squished_trans)
    with unf r(1) show ?thesis by simp
  qed
qed

lemma squish_apply_returns:
  assumes "chain_inv ds" and "i < length ds"
  shows "\<exists>r. squish_apply ds i ps ps2 ss = Some r \<and> squished ds r"
proof (cases "generation (ds ! i)")
  case (enat n)
  with assms show ?thesis by (rule squish_apply_returns_fin)
next
  case infinity
  have np: "pusher (ds ! i) = None"
  proof (rule ccontr)
    assume "pusher (ds ! i) \<noteq> None"
    then obtain p where "pusher (ds ! i) = Some p" by auto
    with assms have "generation (ds ! p) \<noteq> \<infinity>" "generation (ds ! i) = generation (ds ! p) + 1"
      unfolding chain_inv_def by blast+
    with infinity show False by (auto simp: enat_plus_one)
  qed
  let ?b = "dbounds (ds ! i)"
  let ?b1 = "?b\<lparr>rwidth := rwidth ?b - px ss, rheight := rheight ?b - py ss,
                rleft := rleft ?b + px ps, rtop := rtop ?b + py ps\<rparr>"
  let ?v = "calcValidSize (Point (rwidth ?b1) (rheight ?b1))"
  let ?b2 = "?b1\<lparr>rwidth := px ?v, rheight := py ?v\<rparr>"
  let ?ds1 = "ds[i := (ds ! i)\<lparr>dbounds := ?b2\<rparr>]"
  have "squish_apply ds i ps ps2 ss = Some ?ds1"
    using infinity np by (subst squish_apply.simps) (simp add: Let_def zero_enat_def)
  moreover have "squished ds ?ds1"
    using assms(2) by (rule squished_update) (rule calcValidSize_minSized)
  ultimately show ?thesis by simp
qed

lemma squish_item_returns:
  assumes "chain_inv ds" and "i < length ds"
  shows "\<exists>r. squish_item pageBounds ds i = Some r \<and> squished ds r"
proof -
  let ?st = "squish_steps_of pageBounds (ds ! i)"
  from squish_apply_returns [OF assms, of "posStep ?st" "posStep2 ?st" "sizeStep ?st"]
  obtain r where r: "squish_apply ds i (posStep ?st) (posStep2 ?st) (sizeStep ?st) = Some r"
    "squished ds r" by blast
  have "squish_item pageBounds ds i = Some r \<or> squish_item pageBounds ds i = Some ds"
    using r(1) by (simp add: squish_item_def Let_def)
  with r(2) squished_refl [of ds] show ?thesis by auto
qed

lemma squish_returns:
  "chain_inv ds \<Longrightarrow> \<forall>i \<in> set idx. i < length ds \<Longrightarrow>
   \<exists>r. squish pageBounds idx ds = Some r \<and> squished ds r"
proof (induction idx arbitrary: ds)
  case Nil
  then show ?case by (simp add: squished_refl)
next
  case (Cons i idx)
  from Cons.prems have i: "i < length ds" by simp
  from squish_item_returns [OF Cons.prems(1) i, of pageBounds]
  obtain d1 where d1: "squish_item pageBounds ds i = Some d1" "squished ds d1" by blast
  from d1(2) Cons.prems(1) have c1: "chain_inv d1" by (rule squished_chain_inv)
  from d1(2) Cons.prems(2) have "\<forall>j \<in> set idx. j < length d1"
    by (simp add: squished_def)
  from Cons.IH [OF c1 this]
  obtain r where r: "squish pageBounds idx d1 = Some r" "squished d1 r" by blast
  from d1(2) r(2) have "squished ds r" by (rule squished_trans)
  with d1(1) r(1) show ?case by simp
qed

text \<open>An item inside the page bounds is not squished.\<close>

lemma squish_item_inside:
  assumes "generation (ds ! i) = 0 \<or> contains pageBounds (dbounds (ds ! i))"
  shows "squish_item pageBounds ds i = Some ds"
proof (cases "generation (ds ! i) = 0")
  case True
  then show ?thesis by (simp add: squish_item_def Let_def)
next
  case False
  with assms have c: "contains pageBounds (dbounds (ds ! i))" by simp
  then have "posStep (squish_steps_of pageBounds (ds ! i)) = Point 0 0"
    "sizeStep (squish_steps_of pageBounds (ds ! i)) = Point 0 0"
    by (simp_all add: squish_steps_of_def Let_def contains_def)
  then show ?thesis
    by (simp add: squish_item_def Let_def Point_def)
qed

lemma squish_inside:
  "\<forall>i \<in> set idx. generation (ds ! i) = 0 \<or> contains pageBounds (dbounds (ds ! i)) \<Longrightarrow>
   squish pageBounds idx ds = Some ds"
  by (induction idx) (simp_all add: squish_item_inside)

section \<open>Unsquish never shrinks and never creates an overlap\<close>


lemma unsquish_newBounds_size:
  "rwidth b \<le> rwidth (unsquish_newBounds pageBounds it b)"
  "rheight b \<le> rheight (unsquish_newBounds pageBounds it b)"
  by (simp_all add: unsquish_newBounds_def Let_def offset_def)

lemma unsquish_newBounds_fixed:
  assumes "contains pageBounds b"
    and "px (unsquish_newSize it) \<le> rwidth b" and "py (unsquish_newSize it) \<le> rheight b"
  shows "unsquish_newBounds pageBounds it b = b"
proof -
  from assms(2,3) have m: "max (rwidth b) (px (unsquish_newSize it)) = rwidth b"
    "max (rheight b) (py (unsquish_newSize it)) = rheight b"
    by simp_all
  from assms(1) have c: "\<not> rleft b < rleft pageBounds" "\<not> rright b > rright pageBounds"
    "\<not> rtop b < rtop pageBounds" "\<not> rbottom b > rbottom pageBounds"
    by (simp_all add: contains_def)
  show ?thesis
    using c by (simp add: unsquish_newBounds_def Let_def m offset_def Point_def rright_def rbottom_def)
qed

lemma unsquish_pair_length: "length (unsquish_pair pageBounds its i bs) = length bs"
  by (simp add: unsquish_pair_def Let_def)

lemma unsquish_pair_nth:
  "k < length bs \<Longrightarrow>
   unsquish_pair pageBounds its i bs ! k = bs ! k \<or>
   (k = i \<and> unsquish_pair pageBounds its i bs ! k = unsquish_newBounds pageBounds (its ! i) (bs ! i) \<and>
    \<not> blockedFrom i (unsquish_newBounds pageBounds (its ! i) (bs ! i)) 0 bs)"
  by (cases "k = i") (simp_all add: unsquish_pair_def Let_def)

lemma unsquish_pair_size:
  assumes "k < length bs"
  shows "rwidth (bs ! k) \<le> rwidth (unsquish_pair pageBounds its i bs ! k) \<and>
         rheight (bs ! k) \<le> rheight (unsquish_pair pageBounds its i bs ! k)"
  using unsquish_pair_nth [OF assms, of pageBounds its i]
  by (auto simp: unsquish_newBounds_size)


lemma unsquish_length: "length (unsquish pageBounds its idx bs) = length bs"
  by (induction idx arbitrary: bs) (simp_all add: unsquish_pair_length)

lemma unsquish_size:
  "k < length bs \<Longrightarrow>
   rwidth (bs ! k) \<le> rwidth (unsquish pageBounds its idx bs ! k) \<and>
   rheight (bs ! k) \<le> rheight (unsquish pageBounds its idx bs ! k)"
proof (induction idx arbitrary: bs)
  case Nil
  show ?case by simp
next
  case (Cons i idx)
  let ?b1 = "unsquish_pair pageBounds its i bs"
  from Cons.prems have k1: "k < length ?b1" by (simp add: unsquish_pair_length)
  from Cons.IH [OF k1] unsquish_pair_size [OF Cons.prems, of pageBounds its i]
  show ?case by auto
qed


lemma unsquish_pair_fixed:
  assumes "contains pageBounds (bs ! i)"
    and "px (unsquish_newSize (its ! i)) \<le> rwidth (bs ! i)"
    and "py (unsquish_newSize (its ! i)) \<le> rheight (bs ! i)"
  shows "unsquish_pair pageBounds its i bs = bs"
  using unsquish_newBounds_fixed [OF assms]
  by (simp add: unsquish_pair_def Let_def equals_iff)

lemma unsquish_fixed:
  "\<forall>i \<in> set idx. contains pageBounds (bs ! i) \<and>
      px (unsquish_newSize (its ! i)) \<le> rwidth (bs ! i) \<and>
      py (unsquish_newSize (its ! i)) \<le> rheight (bs ! i) \<Longrightarrow>
   unsquish pageBounds its idx bs = bs"
  by (induction idx) (simp_all add: unsquish_pair_fixed)

section \<open>Applying the changes\<close>

lemma setBounds_bounds:
  "bounds (setBounds r it) =
     Rect (rleft r) (rtop r) (px (calcValidSize (Point (rwidth r) (rheight r))))
       (py (calcValidSize (Point (rwidth r) (rheight r))))"
  by (cases "bounds it") (auto simp: setBounds_def Let_def Rect_def)

lemma setBounds_minSized: "minSized (bounds (setBounds r it))"
  by (simp add: setBounds_bounds minSized_def Rect_def calcValidSize_def Point_def)

lemma setBounds_valid: "minSized r \<Longrightarrow> bounds (setBounds r it) = r"
  by (cases r) (simp add: setBounds_bounds minSized_def Rect_def calcValidSize_def Point_def max_def)

lemma applyChanges_length: "length (applyChanges its datas) = length its"
  by (induction its datas rule: applyChanges.induct) simp_all

lemma applyChanges_nth:
  "length datas = length its \<Longrightarrow> i < length its \<Longrightarrow>
   applyChanges its datas ! i =
     (if \<not> equals (dbounds (datas ! i)) (startBounds (datas ! i))
      then setBounds (dbounds (datas ! i)) (its ! i) else its ! i)"
proof (induction its arbitrary: datas i)
  case Nil
  then show ?case by simp
next
  case (Cons item its)
  from Cons.prems(1) obtain d ds where ds: "datas = d # ds"
    by (cases datas) auto
  show ?case
  proof (cases i)
    case 0
    with ds show ?thesis by simp
  next
    case (Suc k)
    with Cons.prems ds have "length ds = length its" "k < length its" by simp_all
    from Cons.IH [OF this] Suc ds show ?thesis by simp
  qed
qed

lemma applyChanges_unchanged:
  "\<forall>d \<in> set datas. dbounds d = startBounds d \<Longrightarrow> applyChanges its datas = its"
  by (induction its datas rule: applyChanges.induct) (simp_all add: equals_iff)

lemma pushAway_unsquish_length:
  "length datas = length its \<Longrightarrow> length (pushAway_unsquish pageBounds its datas) = length its"
  by (simp add: pushAway_unsquish_def unsquish_length)

lemma pushAway_unsquish_nth:
  assumes "length datas = length its" and "i < length its"
  shows "pushAway_unsquish pageBounds its datas ! i =
         (datas ! i)\<lparr>dbounds := unsquish pageBounds its [0..<length its] (map dbounds datas) ! i\<rparr>"
  using assms by (simp add: pushAway_unsquish_def unsquish_length)

lemma committed_bounds:
  assumes "length datas = length its" and "i < length its"
    and "startBounds (datas ! i) = bounds (its ! i)"
  shows "bounds (applyChanges its (pushAway_unsquish pageBounds its datas) ! i) = bounds (its ! i) \<or>
         minSized (bounds (applyChanges its (pushAway_unsquish pageBounds its datas) ! i))"
    and "minSized (unsquish pageBounds its [0..<length its] (map dbounds datas) ! i) \<Longrightarrow>
         bounds (applyChanges its (pushAway_unsquish pageBounds its datas) ! i) =
           unsquish pageBounds its [0..<length its] (map dbounds datas) ! i"
proof -
  let ?bs = "unsquish pageBounds its [0..<length its] (map dbounds datas)"
  let ?d = "pushAway_unsquish pageBounds its datas"
  have l: "length ?d = length its"
    using assms(1) by (rule pushAway_unsquish_length)
  have n: "applyChanges its ?d ! i =
      (if \<not> equals (?bs ! i) (bounds (its ! i)) then setBounds (?bs ! i) (its ! i) else its ! i)"
    using assms(3)
    by (simp add: applyChanges_nth [OF l assms(2)] pushAway_unsquish_nth [OF assms(1,2)])
  show "bounds (applyChanges its ?d ! i) = bounds (its ! i) \<or> minSized (bounds (applyChanges its ?d ! i))"
    by (simp add: n setBounds_minSized)
  show "bounds (applyChanges its ?d ! i) = ?bs ! i" if "minSized (?bs ! i)"
    using that by (auto simp: n setBounds_valid equals_iff)
qed

section \<open>The whole pass returns\<close>

lemma pushAway_returns:
  assumes "this < length its" and "2 \<le> length its"
  shows "\<exists>datas datas1.
           propagate its this = Some datas \<and> bfs_inv datas [] \<and> framed its datas \<and>
           generation (datas ! this) = 0 \<and>
           squish (getSafeWindowBounds innerWidth innerHeight) [0..<length its] datas = Some datas1 \<and>
           squished datas datas1 \<and>
           pushAway innerWidth innerHeight its this stale =
             Some (Inr (applyChanges its
               (pushAway_unsquish (getSafeWindowBounds innerWidth innerHeight) its datas1)))"
proof -
  from propagate_returns [OF assms(1)]
  obtain datas where d: "propagate its this = Some datas" "bfs_inv datas []" "framed its datas"
    "generation (datas ! this) = 0" by blast
  from d(3) have len: "length datas = length its" by (simp add: framed_def)
  have c: "chain_inv datas" using d(2) by (rule bfs_inv_chain_inv)
  have "\<forall>i \<in> set [0..<length its]. i < length datas"
    by (simp add: len)
  from squish_returns [OF c this, of "getSafeWindowBounds innerWidth innerHeight"]
  obtain datas1 where s: "squish (getSafeWindowBounds innerWidth innerHeight) [0..<length its] datas = Some datas1"
    "squished datas datas1" by blast
  have "pushAway innerWidth innerHeight its this stale =
             Some (Inr (applyChanges its
               (pushAway_unsquish (getSafeWindowBounds innerWidth innerHeight) its datas1)))"
    using assms d(1) s(1) by (simp add: pushAway_def Let_def)
  with d s show ?thesis by blast
qed

text \<open>
  A record of generation 0 is neither changed nor queued by \<open>pushOne\<close>; this is what
  keeps the record of a receiver outside the list out of the loops over the items.
\<close>

lemma pushOne_generation_zero:
  assumes "k < length ds" and "generation (ds ! k) = 0"
  shows "fst (pushOne b ds) ! k = ds ! k" and "k \<notin> set (snd (pushOne b ds))"
proof -
  from assms(2) have "generation (ds ! k) \<le> generation (ds ! b)" by simp
  then have g: "pushEach b (generation (ds ! b)) (inset (- buffer) (- buffer) (dbounds (ds ! b)))
            (center (inset (- buffer) (- buffer) (dbounds (ds ! b)))) k (ds ! k) = (ds ! k, False)"
    by (rule pushEach_guard)
  show "fst (pushOne b ds) ! k = ds ! k"
    by (simp add: pushOne_nth [OF assms(1)] g)
  show "k \<notin> set (snd (pushOne b ds))"
    by (simp add: pushOne_mem g)
qed

lemma seeded_outside_inv: "bfs_inv (seeded_outside its d) [length its]"
proof -
  have n: "seeded_outside its d ! length its = d\<lparr>generation := 0, pusher := None\<rparr>"
    by (simp add: seeded_outside_def nth_append)
  have l: "length (seeded_outside its d) = Suc (length its)"
    by (simp add: seeded_outside_def)
  have r: "generation (seeded_outside its d ! i) = (if i = length its then 0 else \<infinity>) \<and>
           pusher (seeded_outside its d ! i) = None" if "i < Suc (length its)" for i
    using that by (simp add: seeded_outside_def nth_append pushAway_setupPushAwayData_def)
  show ?thesis
    unfolding bfs_inv_def l
    by (auto simp: r zero_enat_def one_enat_def)
qed

lemma pushAway_returns_outside:
  assumes "\<not> this < length its"
  shows "\<exists>r. pushAway innerWidth innerHeight its this stale = Some r"
proof (cases "length its < 2")
  case True
  then show ?thesis by (simp add: pushAway_def)
next
  case False
  show ?thesis
  proof (cases stale)
    case None
    with False assms show ?thesis by (simp add: pushAway_def)
  next
    case (Some d)
    let ?page = "getSafeWindowBounds innerWidth innerHeight"
    have l0: "length (seeded_outside its d) = Suc (length its)"
      by (simp add: seeded_outside_def)
    have "\<exists>r. pushLoop (seeded_outside its d) [length its] = Some r \<and> bfs_inv r [] \<and>
            length r = Suc (length its)"
    proof (rule pushLoop_returns [where I = "\<lambda>r. length r = Suc (length its)"])
      show "bfs_inv (seeded_outside its d) [length its]"
        by (rule seeded_outside_inv)
      show "length (seeded_outside its d) = Suc (length its)"
        by (rule l0)
    next
      fix ds :: "pushAwayData list" and b :: nat and rest :: "nat list"
      assume "length ds = Suc (length its)"
      then show "length (fst (pushOne b ds)) = Suc (length its)"
        by (simp add: pushOne_length)
    qed
    then obtain datas where p: "pushLoop (seeded_outside its d) [length its] = Some datas"
      "bfs_inv datas []" "length datas = Suc (length its)" by blast
    have c: "chain_inv datas" using p(2) by (rule bfs_inv_chain_inv)
    have "\<forall>i \<in> set [0..<length its]. i < length datas"
      by (simp add: p(3))
    from squish_returns [OF c this, of ?page]
    obtain datas1 where "squish ?page [0..<length its] datas = Some datas1" by blast
    with False assms Some p(1) show ?thesis
      by (simp add: pushAway_def Let_def)
  qed
qed

text \<open>
  A receiver that is not among the items: with scratch data left by an earlier pass, the
  items are pushed away from the bounds recorded there (here the first item is pushed out
  of the window to the left and squished back in at the minimum width); without, seeding
  fails.
\<close>

lemma pushAway_outside_example:
  "pushAway 5000 5000
     [\<lparr>bounds = Rect 100 100 200 200, userSize = None\<rparr>,
      \<lparr>bounds = Rect 250 100 400 200, userSize = None\<rparr>] 2
     (Some \<lparr>dbounds = Rect 100 100 200 200, startBounds = Rect 100 100 200 200,
             generation = 3, pusher = Some 1\<rparr>) =
     Some (Inr [\<lparr>bounds = Rect 15 100 125 200, userSize = None\<rparr>,
                \<lparr>bounds = Rect 314 100 400 200, userSize = None\<rparr>]) \<and>
   pushAway 5000 5000
     [\<lparr>bounds = Rect 100 100 200 200, userSize = None\<rparr>,
      \<lparr>bounds = Rect 250 100 400 200, userSize = None\<rparr>] 2 None =
     Some (Inl TypeError)"
  by code_simp

section \<open>Push-away terminates\<close>

text \<open>
  Claim C1. \<open>Item.pushAway\<close> returns for every list of top-level items and every
  receiver, among the items or not, with or without scratch data left on it by an
  earlier pass; for a receiver among the items the propagation loop empties its queue
  after finitely many iterations, leaving one scratch record per item; and a base never
  pushes an item whose generation is at most its own.
\<close>

theorem pushAway_terminates:
  "(\<exists>r. pushAway innerWidth innerHeight its this stale = Some r) \<and>
   (this < length its \<longrightarrow>
      (\<exists>datas. propagate its this = Some datas \<and> length datas = length its)) \<and>
   (generation data \<le> baseGeneration \<longrightarrow>
      pushEach baseItem baseGeneration bb bbc item data = (data, False))"
proof (intro conjI impI)
  show "\<exists>r. pushAway innerWidth innerHeight its this stale = Some r"
  proof (cases "this < length its")
    case True
    show ?thesis
    proof (cases "2 \<le> length its")
      case True
      with \<open>this < length its\<close> pushAway_returns [of this its innerWidth innerHeight stale]
      show ?thesis by blast
    next
      case False
      then show ?thesis by (simp add: pushAway_def)
    qed
  next
    case False
    then show ?thesis by (rule pushAway_returns_outside)
  qed
next
  assume "this < length its"
  from propagate_returns [OF this]
  show "\<exists>datas. propagate its this = Some datas \<and> length datas = length its"
    by (auto simp: framed_def)
next
  assume "generation data \<le> baseGeneration"
  then show "pushEach baseItem baseGeneration bb bbc item data = (data, False)"
    by (rule pushEach_guard)
qed

theorem pushAway_terminates_witness:
  "(0::nat) < length [\<lparr>bounds = Rect 100 100 200 200, userSize = None\<rparr>,
                     \<lparr>bounds = Rect 250 100 400 200, userSize = None\<rparr>,
                     \<lparr>bounds = Rect 320 100 130 200, userSize = None\<rparr>] \<and>
   propagate [\<lparr>bounds = Rect 100 100 200 200, userSize = None\<rparr>,
              \<lparr>bounds = Rect 250 100 400 200, userSize = None\<rparr>,
              \<lparr>bounds = Rect 320 100 130 200, userSize = None\<rparr>] 0 =
     Some [\<lparr>dbounds = Rect 100 100 200 200, startBounds = Rect 100 100 200 200,
             generation = 0, pusher = None\<rparr>,
           \<lparr>dbounds = Rect 314 100 400 200, startBounds = Rect 250 100 400 200,
             generation = 1, pusher = Some 0\<rparr>,
           \<lparr>dbounds = Rect 170 100 130 200, startBounds = Rect 320 100 130 200,
             generation = 2, pusher = Some 1\<rparr>] \<and>
   (generation \<lparr>dbounds = Rect 314 100 400 200, startBounds = Rect 250 100 400 200,
      generation = 1, pusher = Some 0\<rparr> \<le> 2)"
proof -
  let ?its = "[\<lparr>bounds = Rect 100 100 200 200, userSize = None\<rparr>,
               \<lparr>bounds = Rect 250 100 400 200, userSize = None\<rparr>,
               \<lparr>bounds = Rect 320 100 130 200, userSize = None\<rparr>]"
  let ?d = "\<lparr>dbounds = Rect 314 100 400 200, startBounds = Rect 250 100 400 200,
      generation = 1, pusher = Some 0\<rparr>"
  have e: "propagate ?its 0 =
     Some [\<lparr>dbounds = Rect 100 100 200 200, startBounds = Rect 100 100 200 200,
             generation = 0, pusher = None\<rparr>,
           ?d,
           \<lparr>dbounds = Rect 170 100 130 200, startBounds = Rect 320 100 130 200,
             generation = 2, pusher = Some 1\<rparr>]"
    by code_simp
  have g: "generation ?d \<le> 2"
    by simp
  from pushAway_terminates [of 5000 5000 ?its 0 None ?d 2] e g show ?thesis
    by simp
qed

section \<open>Push-away keeps the minimum size\<close>

text \<open>A rectangle has at least the minimum size exactly if \<open>calcValidSize\<close> returns its size unchanged.\<close>

lemma minSized_iff_valid:
  "minSized r \<longleftrightarrow>
   calcValidSize (Point (rwidth r) (rheight r)) = Point (rwidth r) (rheight r)"
  by (auto simp: minSized_def calcValidSize_def Point_def max_def)

text \<open>
  Claim C3. In a pass for a receiver among the items, the propagation and the squish
  step return. For every item: the propagation keeps its size; the squish step either
  leaves its scratch bounds as the propagation gave them or writes a size that
  \<open>calcValidSize\<close> returns unchanged; unsquish makes its scratch bounds no narrower and no
  lower than the squish step left them; and bounds that the pass changed have at least
  the minimum size. So an item that had at least the minimum width and height before
  the pass (what \<open>setBounds\<close> establishes for every item) has them in its scratch bounds
  after the squish step, after unsquish, and in the bounds the pass leaves it with.
\<close>

theorem pushAway_minimum_size:
  assumes "this < length its"
  shows "\<exists>datas datas1 its'.
           propagate its this = Some datas \<and>
           squish (getSafeWindowBounds innerWidth innerHeight) [0..<length its] datas = Some datas1 \<and>
           pushAway innerWidth innerHeight its this stale = Some (Inr its') \<and>
           length its' = length its \<and>
           (2 \<le> length its \<longrightarrow>
              its' = applyChanges its
                (pushAway_unsquish (getSafeWindowBounds innerWidth innerHeight) its datas1)) \<and>
           (\<forall>i < length its.
              rwidth (dbounds (datas ! i)) = rwidth (bounds (its ! i)) \<and>
              rheight (dbounds (datas ! i)) = rheight (bounds (its ! i)) \<and>
              (dbounds (datas1 ! i) = dbounds (datas ! i) \<or>
               calcValidSize (Point (rwidth (dbounds (datas1 ! i))) (rheight (dbounds (datas1 ! i)))) =
                 Point (rwidth (dbounds (datas1 ! i))) (rheight (dbounds (datas1 ! i)))) \<and>
              rwidth (dbounds (datas1 ! i)) \<le>
                rwidth (dbounds (pushAway_unsquish
                  (getSafeWindowBounds innerWidth innerHeight) its datas1 ! i)) \<and>
              rheight (dbounds (datas1 ! i)) \<le>
                rheight (dbounds (pushAway_unsquish
                  (getSafeWindowBounds innerWidth innerHeight) its datas1 ! i)) \<and>
              (bounds (its' ! i) = bounds (its ! i) \<or> minSized (bounds (its' ! i))) \<and>
              (minSized (bounds (its ! i)) \<longrightarrow>
                 minSized (dbounds (datas1 ! i)) \<and>
                 minSized (dbounds (pushAway_unsquish
                   (getSafeWindowBounds innerWidth innerHeight) its datas1 ! i)) \<and>
                 minSized (bounds (its' ! i))))"
proof -
  let ?page = "getSafeWindowBounds innerWidth innerHeight"
  from propagate_returns [OF assms]
  obtain datas where p: "propagate its this = Some datas" and inv: "bfs_inv datas []"
    and f: "framed its datas" by blast
  from f have len: "length datas = length its" by (simp add: framed_def)
  have c: "chain_inv datas" using inv by (rule bfs_inv_chain_inv)
  have "\<forall>i \<in> set [0..<length its]. i < length datas"
    by (simp add: len)
  from squish_returns [OF c this, of ?page]
  obtain datas1 where q: "squish ?page [0..<length its] datas = Some datas1"
    and s: "squished datas datas1" by blast
  from s len have len1: "length datas1 = length its" by (simp add: squished_def)
  let ?u = "pushAway_unsquish ?page its datas1"
  let ?bs = "unsquish ?page its [0..<length its] (map dbounds datas1)"
  let ?r = "if 2 \<le> length its then applyChanges its ?u else its"
  have r: "pushAway innerWidth innerHeight its this stale = Some (Inr ?r)"
    using assms p q by (simp add: pushAway_def Let_def)
  have lr: "length ?r = length its"
    by (simp add: applyChanges_length)
  have two: "2 \<le> length its \<longrightarrow> ?r = applyChanges its ?u"
    by simp
  have each: "rwidth (dbounds (datas ! i)) = rwidth (bounds (its ! i)) \<and>
        rheight (dbounds (datas ! i)) = rheight (bounds (its ! i)) \<and>
        (dbounds (datas1 ! i) = dbounds (datas ! i) \<or>
         calcValidSize (Point (rwidth (dbounds (datas1 ! i))) (rheight (dbounds (datas1 ! i)))) =
           Point (rwidth (dbounds (datas1 ! i))) (rheight (dbounds (datas1 ! i)))) \<and>
        rwidth (dbounds (datas1 ! i)) \<le> rwidth (dbounds (?u ! i)) \<and>
        rheight (dbounds (datas1 ! i)) \<le> rheight (dbounds (?u ! i)) \<and>
        (bounds (?r ! i) = bounds (its ! i) \<or> minSized (bounds (?r ! i))) \<and>
        (minSized (bounds (its ! i)) \<longrightarrow>
           minSized (dbounds (datas1 ! i)) \<and> minSized (dbounds (?u ! i)) \<and>
           minSized (bounds (?r ! i)))"
    if i: "i < length its" for i
  proof -
    from f i have w: "rwidth (dbounds (datas ! i)) = rwidth (bounds (its ! i))"
      and h: "rheight (dbounds (datas ! i)) = rheight (bounds (its ! i))"
      and sb: "startBounds (datas ! i) = bounds (its ! i)"
      by (simp_all add: framed_def)
    from s i len have sq: "dbounds (datas1 ! i) = dbounds (datas ! i) \<or> minSized (dbounds (datas1 ! i))"
      and sb1: "startBounds (datas1 ! i) = startBounds (datas ! i)"
      by (simp_all add: squished_def)
    from sq have v: "dbounds (datas1 ! i) = dbounds (datas ! i) \<or>
         calcValidSize (Point (rwidth (dbounds (datas1 ! i))) (rheight (dbounds (datas1 ! i)))) =
           Point (rwidth (dbounds (datas1 ! i))) (rheight (dbounds (datas1 ! i)))"
      by (simp add: minSized_iff_valid)
    have u: "dbounds (?u ! i) = ?bs ! i"
      by (simp add: pushAway_unsquish_nth [OF len1 i])
    from i len1 have "i < length (map dbounds datas1)" by simp
    from unsquish_size [OF this, of ?page its "[0..<length its]"] i len1
    have grow: "rwidth (dbounds (datas1 ! i)) \<le> rwidth (?bs ! i)"
      "rheight (dbounds (datas1 ! i)) \<le> rheight (?bs ! i)"
      by simp_all
    from sb sb1 have sb2: "startBounds (datas1 ! i) = bounds (its ! i)" by simp
    have ch: "bounds (?r ! i) = bounds (its ! i) \<or> minSized (bounds (?r ! i))"
      using committed_bounds(1) [OF len1 i sb2, of ?page] by auto
    have m: "minSized (dbounds (datas1 ! i)) \<and> minSized (dbounds (?u ! i)) \<and>
             minSized (bounds (?r ! i))"
      if ms: "minSized (bounds (its ! i))"
    proof -
      from ms w h have "minSized (dbounds (datas ! i))" by (simp add: minSized_def)
      with sq have m1: "minSized (dbounds (datas1 ! i))" by auto
      with grow have m2: "minSized (?bs ! i)" by (simp add: minSized_def)
      from ch ms have "minSized (bounds (?r ! i))" by auto
      with m1 m2 u show ?thesis by simp
    qed
    from w h v grow u ch m show ?thesis by simp
  qed
  from p q r lr two each show ?thesis by blast
qed

theorem pushAway_minimum_size_witness:
  "(0::nat) < length [\<lparr>bounds = Rect 100 100 200 200, userSize = None\<rparr>,
                     \<lparr>bounds = Rect 250 100 400 200, userSize = None\<rparr>] \<and>
   minSized (Rect 250 100 400 200) \<and>
   propagate [\<lparr>bounds = Rect 100 100 200 200, userSize = None\<rparr>,
              \<lparr>bounds = Rect 250 100 400 200, userSize = None\<rparr>] 0 =
     Some [\<lparr>dbounds = Rect 100 100 200 200, startBounds = Rect 100 100 200 200,
             generation = 0, pusher = None\<rparr>,
           \<lparr>dbounds = Rect 314 100 400 200, startBounds = Rect 250 100 400 200,
             generation = 1, pusher = Some 0\<rparr>] \<and>
   squish (getSafeWindowBounds 400 500) [0..<2]
     [\<lparr>dbounds = Rect 100 100 200 200, startBounds = Rect 100 100 200 200,
        generation = 0, pusher = None\<rparr>,
      \<lparr>dbounds = Rect 314 100 400 200, startBounds = Rect 250 100 400 200,
        generation = 1, pusher = Some 0\<rparr>] =
     Some [\<lparr>dbounds = Rect 100 100 200 200, startBounds = Rect 100 100 200 200,
             generation = 0, pusher = None\<rparr>,
           \<lparr>dbounds = Rect 314 100 125 200, startBounds = Rect 250 100 400 200,
             generation = 1, pusher = Some 0\<rparr>] \<and>
   calcValidSize (Point 71 200) = Point 125 200 \<and>
   calcValidSize (Point 125 200) = Point 125 200 \<and>
   pushAway 400 500 [\<lparr>bounds = Rect 100 100 200 200, userSize = None\<rparr>,
                     \<lparr>bounds = Rect 250 100 400 200, userSize = None\<rparr>] 0 None =
     Some (Inr [\<lparr>bounds = Rect 100 100 200 200, userSize = None\<rparr>,
                \<lparr>bounds = Rect 314 100 125 200, userSize = None\<rparr>]) \<and>
   minSized (Rect 314 100 125 200)"
proof -
  let ?its = "[\<lparr>bounds = Rect 100 100 200 200, userSize = None\<rparr>,
               \<lparr>bounds = Rect 250 100 400 200, userSize = None\<rparr>]"
  let ?datas = "[\<lparr>dbounds = Rect 100 100 200 200, startBounds = Rect 100 100 200 200,
                   generation = 0, pusher = None\<rparr>,
                 \<lparr>dbounds = Rect 314 100 400 200, startBounds = Rect 250 100 400 200,
                   generation = 1, pusher = Some 0\<rparr>]"
  let ?datas1 = "[\<lparr>dbounds = Rect 100 100 200 200, startBounds = Rect 100 100 200 200,
                    generation = 0, pusher = None\<rparr>,
                  \<lparr>dbounds = Rect 314 100 125 200, startBounds = Rect 250 100 400 200,
                    generation = 1, pusher = Some 0\<rparr>]"
  have p: "propagate ?its 0 = Some ?datas"
    by code_simp
  have q: "squish (getSafeWindowBounds 400 500) [0..<2] ?datas = Some ?datas1"
    by code_simp
  have e: "pushAway 400 500 ?its 0 None =
     Some (Inr [\<lparr>bounds = Rect 100 100 200 200, userSize = None\<rparr>,
                \<lparr>bounds = Rect 314 100 125 200, userSize = None\<rparr>])"
    by code_simp
  have v: "calcValidSize (Point 71 200) = Point 125 200"
    "calcValidSize (Point 125 200) = Point 125 200"
    by (simp_all add: calcValidSize_def Point_def minItemWidth_def minItemHeight_def)
  have h: "(0::nat) < length ?its" by simp
  have m: "minSized (Rect 250 100 400 200)"
    by (simp add: minSized_def Rect_def minItemWidth_def minItemHeight_def)
  have q': "squish (getSafeWindowBounds 400 500) [0..<length ?its] ?datas = Some ?datas1"
    by code_simp
  from pushAway_minimum_size [OF h, where innerWidth = 400 and innerHeight = 500 and stale = None]
  obtain datas datas1 its' where
    a: "propagate ?its 0 = Some datas" and
    b: "squish (getSafeWindowBounds 400 500) [0..<length ?its] datas = Some datas1" and
    c: "pushAway 400 500 ?its 0 None = Some (Inr its')" and
    d: "\<forall>i < length ?its. minSized (bounds (?its ! i)) \<longrightarrow>
          minSized (dbounds (datas1 ! i)) \<and>
          minSized (dbounds (pushAway_unsquish (getSafeWindowBounds 400 500) ?its datas1 ! i)) \<and>
          minSized (bounds (its' ! i))"
    by blast
  from a p have "datas = ?datas" by simp
  with b have "squish (getSafeWindowBounds 400 500) [0..<length ?its] ?datas = Some datas1"
    by (simp only:)
  then have d1: "datas1 = ?datas1"
    by (simp only: q' option.inject)
  from c e have r: "its' = [\<lparr>bounds = Rect 100 100 200 200, userSize = None\<rparr>,
                           \<lparr>bounds = Rect 314 100 125 200, userSize = None\<rparr>]"
    by simp
  have "(1::nat) < length ?its" by simp
  with d have "minSized (bounds (?its ! 1)) \<longrightarrow> minSized (bounds (its' ! 1))"
    by blast
  with m have "minSized (Rect 314 100 125 200)"
    by (simp add: r)
  with h m p q v e show ?thesis by simp
qed

section \<open>Push-away and overlaps\<close>





section \<open>Push-away on a resolved configuration\<close>

text \<open>
  Claim C4 as stated fails. A first pass pushes the second item to the right; the second
  item pushes the third to the left, to where it stands below the receiver's bottom edge
  by less than the margin kept around every box. After the first pass neither item
  overlaps the receiver, but the inflated box of the third intersects that of the
  receiver, which the first pass never looks at again. A second pass from the same
  receiver on the result of the first, with nothing moved in between, pushes the third
  item down.
\<close>

theorem pushAway_idempotent_counterexample:
  "pushAway 5000 5000
     [\<lparr>bounds = Rect 100 100 200 200, userSize = None\<rparr>,
      \<lparr>bounds = Rect 250 100 400 420, userSize = None\<rparr>,
      \<lparr>bounds = Rect 320 305 130 200, userSize = None\<rparr>] 0 None =
     Some (Inr [\<lparr>bounds = Rect 100 100 200 200, userSize = None\<rparr>,
                \<lparr>bounds = Rect 314 100 400 420, userSize = None\<rparr>,
                \<lparr>bounds = Rect 170 305 130 200, userSize = None\<rparr>]) \<and>
   \<not> intersects (Rect 314 100 400 420) (Rect 100 100 200 200) \<and>
   \<not> intersects (Rect 170 305 130 200) (Rect 100 100 200 200) \<and>
   \<not> intersects (Rect 170 305 130 200) (Rect 314 100 400 420) \<and>
   intersects (inset (- buffer) (- buffer) (Rect 170 305 130 200))
              (inset (- buffer) (- buffer) (Rect 100 100 200 200)) \<and>
   pushAway 5000 5000
     [\<lparr>bounds = Rect 100 100 200 200, userSize = None\<rparr>,
      \<lparr>bounds = Rect 314 100 400 420, userSize = None\<rparr>,
      \<lparr>bounds = Rect 170 305 130 200, userSize = None\<rparr>] 0 None =
     Some (Inr [\<lparr>bounds = Rect 100 100 200 200, userSize = None\<rparr>,
                \<lparr>bounds = Rect 314 100 400 420, userSize = None\<rparr>,
                \<lparr>bounds = Rect 170 314 130 200, userSize = None\<rparr>]) \<and>
   Rect 170 314 130 200 \<noteq> Rect 170 305 130 200"
  by code_simp

lemma pushEachFrom_none:
  assumes "\<forall>k < length ds. \<not> snd (pushEach b g bb bbc (i + k) (ds ! k))"
  shows "pushEachFrom b g bb bbc i ds = (ds, [])"
proof -
  have "fst (pushEachFrom b g bb bbc i ds) = ds"
  proof (rule nth_equalityI)
    show "length (fst (pushEachFrom b g bb bbc i ds)) = length ds"
      by (rule pushEachFrom_length)
  next
    fix k assume "k < length (fst (pushEachFrom b g bb bbc i ds))"
    then have k: "k < length ds" by (simp add: pushEachFrom_length)
    with assms have "\<not> snd (pushEach b g bb bbc (i + k) (ds ! k))" by simp
    then show "fst (pushEachFrom b g bb bbc i ds) ! k = ds ! k"
      by (simp add: pushEachFrom_nth [OF k] pushEach_not_pushed)
  qed
  moreover have "snd (pushEachFrom b g bb bbc i ds) = []"
  proof (cases "snd (pushEachFrom b g bb bbc i ds)")
    case Nil
    then show ?thesis .
  next
    case (Cons j js)
    then have "j \<in> set (snd (pushEachFrom b g bb bbc i ds))" by simp
    then have j: "i \<le> j" "j - i < length ds" "snd (pushEach b g bb bbc j (ds ! (j - i)))"
      by (simp_all add: pushEachFrom_mem)
    from assms j(2) have "\<not> snd (pushEach b g bb bbc (i + (j - i)) (ds ! (j - i)))" by blast
    with j(1,3) show ?thesis by simp
  qed
  ultimately show ?thesis
    by (simp add: prod_eq_iff)
qed

text \<open>
  Claim C4, as amended. On a configuration in which no other item's inflated bounds
  intersect the receiver's, every item lies inside the safe window bounds, and every item
  is at least as large as the size unsquish would restore (its user size, or the minimum
  size), a pass leaves every item as it is.
\<close>

theorem pushAway_resolved_unchanged:
  assumes "this < length its"
    and "\<forall>i < length its. i \<noteq> this \<longrightarrow>
           \<not> intersects (inset (- buffer) (- buffer) (bounds (its ! i)))
                         (inset (- buffer) (- buffer) (bounds (its ! this)))"
    and "\<forall>i < length its. contains (getSafeWindowBounds innerWidth innerHeight) (bounds (its ! i))"
    and "\<forall>i < length its. px (unsquish_newSize (its ! i)) \<le> rwidth (bounds (its ! i)) \<and>
                            py (unsquish_newSize (its ! i)) \<le> rheight (bounds (its ! i))"
  shows "pushAway innerWidth innerHeight its this stale = Some (Inr its)"
proof (cases "2 \<le> length its")
  case False
  then show ?thesis by (simp add: pushAway_def)
next
  case True
  let ?page = "getSafeWindowBounds innerWidth innerHeight"
  let ?ds = "seeded its this"
  let ?bb = "inset (- buffer) (- buffer) (dbounds (?ds ! this))"
  have bb: "?bb = inset (- buffer) (- buffer) (bounds (its ! this))"
    using assms(1) by (simp add: seeded_nth)
  have "\<forall>k < length ?ds. \<not> snd (pushEach this (generation (?ds ! this)) ?bb (center ?bb) (0 + k) (?ds ! k))"
  proof (intro allI impI)
    fix k assume "k < length ?ds"
    then have k: "k < length its" by (simp add: seeded_length)
    show "\<not> snd (pushEach this (generation (?ds ! this)) ?bb (center ?bb) (0 + k) (?ds ! k))"
    proof (cases "k = this")
      case True
      then show ?thesis by (simp add: pushEach_def)
    next
      case False
      with assms(2) k have "\<not> intersects (inset (- buffer) (- buffer) (bounds (its ! k)))
                         (inset (- buffer) (- buffer) (bounds (its ! this)))" by simp
      then show ?thesis
        unfolding bb using k by (simp add: pushEach_def Let_def seeded_nth)
    qed
  qed
  then have one: "pushOne this ?ds = (?ds, [])"
    unfolding pushOne_def Let_def by (rule pushEachFrom_none)
  have "pushLoop ?ds [this] = pushLoop ?ds []"
    by (subst pushLoop.simps) (simp add: one)
  also have "\<dots> = Some ?ds"
    by (subst pushLoop.simps) simp
  finally have p: "propagate its this = Some ?ds"
    by (simp add: propagate_def)
  have "\<forall>i \<in> set [0..<length its]. generation (?ds ! i) = 0 \<or> contains ?page (dbounds (?ds ! i))"
    using assms(3) by (simp add: seeded_nth)
  then have sq: "squish ?page [0..<length its] ?ds = Some ?ds"
    by (rule squish_inside)
  have raw: "map dbounds ?ds = map bounds its"
    by (rule nth_equalityI) (simp_all add: seeded_length seeded_nth)
  have "\<forall>i \<in> set [0..<length its]. contains ?page (map bounds its ! i) \<and>
      px (unsquish_newSize (its ! i)) \<le> rwidth (map bounds its ! i) \<and>
      py (unsquish_newSize (its ! i)) \<le> rheight (map bounds its ! i)"
    using assms(3,4) by simp
  then have un: "unsquish ?page its [0..<length its] (map bounds its) = map bounds its"
    by (rule unsquish_fixed)
  have same: "pushAway_unsquish ?page its ?ds = ?ds"
    by (rule nth_equalityI)
      (simp_all add: pushAway_unsquish_def raw un seeded_length seeded_nth)
  have "\<forall>d \<in> set ?ds. dbounds d = startBounds d"
    by (auto simp: in_set_conv_nth seeded_length seeded_nth)
  then have "applyChanges its ?ds = its"
    by (rule applyChanges_unchanged)
  then show ?thesis
    using assms(1) True p sq by (simp add: pushAway_def Let_def same)
qed

theorem pushAway_resolved_unchanged_witness:
  "(0::nat) < length [\<lparr>bounds = Rect 100 100 200 200, userSize = None\<rparr>,
                     \<lparr>bounds = Rect 400 100 200 200, userSize = Some (Point 150 150)\<rparr>] \<and>
   \<not> intersects (inset (- buffer) (- buffer) (Rect 400 100 200 200))
                 (inset (- buffer) (- buffer) (Rect 100 100 200 200)) \<and>
   contains (getSafeWindowBounds 5000 5000) (Rect 100 100 200 200) \<and>
   contains (getSafeWindowBounds 5000 5000) (Rect 400 100 200 200) \<and>
   unsquish_newSize \<lparr>bounds = Rect 100 100 200 200, userSize = None\<rparr> = Point 125 110 \<and>
   unsquish_newSize \<lparr>bounds = Rect 400 100 200 200, userSize = Some (Point 150 150)\<rparr> = Point 150 150 \<and>
   pushAway 5000 5000
     [\<lparr>bounds = Rect 100 100 200 200, userSize = None\<rparr>,
      \<lparr>bounds = Rect 400 100 200 200, userSize = Some (Point 150 150)\<rparr>] 0 None =
     Some (Inr [\<lparr>bounds = Rect 100 100 200 200, userSize = None\<rparr>,
                \<lparr>bounds = Rect 400 100 200 200, userSize = Some (Point 150 150)\<rparr>])"
proof -
  let ?its = "[\<lparr>bounds = Rect 100 100 200 200, userSize = None\<rparr>,
               \<lparr>bounds = Rect 400 100 200 200, userSize = Some (Point 150 150)\<rparr>]"
  have i: "\<not> intersects (inset (- buffer) (- buffer) (Rect 400 100 200 200))
                 (inset (- buffer) (- buffer) (Rect 100 100 200 200))"
    by (simp add: intersects_def inset_def Rect_def rright_def rbottom_def buffer_eq)
  have c: "contains (getSafeWindowBounds 5000 5000) (Rect 100 100 200 200)"
    "contains (getSafeWindowBounds 5000 5000) (Rect 400 100 200 200)"
    by (simp_all add: contains_def getSafeWindowBounds_def Let_def Rect_def rright_def rbottom_def
        defaultGutter_def)
  have s: "unsquish_newSize \<lparr>bounds = Rect 100 100 200 200, userSize = None\<rparr> = Point 125 110"
    "unsquish_newSize \<lparr>bounds = Rect 400 100 200 200, userSize = Some (Point 150 150)\<rparr> = Point 150 150"
    by (simp_all add: unsquish_newSize_def calcValidSize_def Point_def minItemWidth_def minItemHeight_def)
  have h1: "(0::nat) < length ?its" by simp
  have h2: "\<forall>i < length ?its. i \<noteq> 0 \<longrightarrow>
           \<not> intersects (inset (- buffer) (- buffer) (bounds (?its ! i)))
                         (inset (- buffer) (- buffer) (bounds (?its ! 0)))"
    using i by (simp add: All_less_Suc)
  have h3: "\<forall>i < length ?its. contains (getSafeWindowBounds 5000 5000) (bounds (?its ! i))"
    using c by (simp add: All_less_Suc)
  have h4: "\<forall>i < length ?its. px (unsquish_newSize (?its ! i)) \<le> rwidth (bounds (?its ! i)) \<and>
                            py (unsquish_newSize (?its ! i)) \<le> rheight (bounds (?its ! i))"
    by (simp add: All_less_Suc unsquish_newSize_def calcValidSize_def Point_def Rect_def
        minItemWidth_def minItemHeight_def)
  from pushAway_resolved_unchanged [OF h1 h2 h3 h4, where stale = None] h1 i c s show ?thesis
    by simp
qed

end
